theory Spec2Isabelle
  imports Complex_Main "HOL-Library.Multiset" "HOL-Library.Sublist"
begin

section \<open>Trim reports for eigenvalue spectra (empyricalRMT/rmt/trim.py)\<close>

text \<open>
  A shallow embedding of the class \<open>TrimReport\<close>. A floating-point number is read as
  a real number (arithmetic is exact; the storage of the report as 32-bit floats does not
  round), Python integers as \<open>int\<close>, a numpy array as a list, and a pandas DataFrame as
  its list of rows or its list of named columns. An exception of the source is a value
  \<open>Inl e\<close> of the result.
\<close>

subsection \<open>Python and numpy primitives\<close>

datatype py_error = IndexError | ZeroDivisionError | KeyError | ValueError | UnboundLocalError

text \<open>Indexing with a Python integer: a negative index counts from the end.\<close>

definition py_index :: "'a list \<Rightarrow> int \<Rightarrow> py_error + nat" where
  "py_index xs i =
     (let n = int (length xs); j = (if i < 0 then n + i else i)
      in if 0 \<le> j \<and> j < n then Inr (nat j) else Inl IndexError)"

definition py_getitem :: "'a list \<Rightarrow> int \<Rightarrow> py_error + 'a" where
  "py_getitem xs i = (case py_index xs i of Inl e \<Rightarrow> Inl e | Inr j \<Rightarrow> Inr (xs ! j))"

definition py_setitem :: "'a list \<Rightarrow> int \<Rightarrow> 'a \<Rightarrow> py_error + 'a list" where
  "py_setitem xs i v = (case py_index xs i of Inl e \<Rightarrow> Inl e | Inr j \<Rightarrow> Inr (xs[j := v]))"

text \<open>\<open>range(a, b)\<close> and the loop \<open>for i in idxs: xs[i] = v\<close>.\<close>

definition py_range :: "int \<Rightarrow> int \<Rightarrow> int list" where
  "py_range a b = [a..b - 1]"

fun assign_each :: "'a list \<Rightarrow> int list \<Rightarrow> 'a \<Rightarrow> py_error + 'a list" where
  "assign_each xs [] v = Inr xs"
| "assign_each xs (i # idxs) v =
     (case py_setitem xs i v of Inl e \<Rightarrow> Inl e | Inr xs' \<Rightarrow> assign_each xs' idxs v)"

text \<open>
  Modelled from the spec: \<open>find_first\<close> and \<open>find_last\<close> of \<open>empyricalRMT.utils\<close> are
  not among the sources. The spec describes them as the exact-value search for the first
  and the last occurrence of a value in an array; for a value that does not occur the
  result is taken to be \<open>-1\<close>.
\<close>

definition find_first :: "'a list \<Rightarrow> 'a \<Rightarrow> int" where
  "find_first arr v =
     (if v \<in> set arr then int (length (takeWhile (\<lambda>x. x \<noteq> v) arr)) else - 1)"

definition find_last :: "'a list \<Rightarrow> 'a \<Rightarrow> int" where
  "find_last arr v =
     (if v \<in> set arr
      then int (length arr) - 1 - int (length (takeWhile (\<lambda>x. x \<noteq> v) (rev arr)))
      else - 1)"

text \<open>
  Modelled from the spec: \<open>stepFunctionVectorized\<close> of
  \<open>empyricalRMT.rmt.observables.step\<close> is not among the sources. It gives, for every
  query point, the number of elements of the reference sample that are at most the query.
\<close>

definition stepFunctionVectorized :: "real list \<Rightarrow> real list \<Rightarrow> real list" where
  "stepFunctionVectorized sample qs = map (\<lambda>q. real (length (filter (\<lambda>e. e \<le> q) sample))) qs"

text \<open>
  A floating-point result is a real number or not a number. \<open>NaN\<close> stands for every
  result of numpy that is not a real number (the mean of no values, a division by zero).
\<close>

datatype np_float = Num real | NaN

fun np_add :: "np_float \<Rightarrow> np_float \<Rightarrow> np_float" where
  "np_add (Num a) (Num b) = Num (a + b)"
| "np_add _ _ = NaN"

fun np_sub :: "np_float \<Rightarrow> np_float \<Rightarrow> np_float" where
  "np_sub (Num a) (Num b) = Num (a - b)"
| "np_sub _ _ = NaN"

fun np_mul :: "np_float \<Rightarrow> np_float \<Rightarrow> np_float" where
  "np_mul (Num a) (Num b) = Num (a * b)"
| "np_mul _ _ = NaN"

fun np_div :: "np_float \<Rightarrow> np_float \<Rightarrow> np_float" where
  "np_div (Num a) (Num b) = (if b = 0 then NaN else Num (a / b))"
| "np_div _ _ = NaN"

text \<open>\<open>np.mean(xs)\<close> and \<open>np.var(xs, ddof=d)\<close>, which divides by \<open>max(N - d, 0)\<close>.\<close>

definition np_mean :: "real list \<Rightarrow> np_float" where
  "np_mean xs = (if xs = [] then NaN else Num (sum_list xs / real (length xs)))"

definition np_var :: "real list \<Rightarrow> nat \<Rightarrow> np_float" where
  "np_var xs ddof =
     (if length xs \<le> ddof then NaN
      else let m = sum_list xs / real (length xs)
           in Num (sum_list (map (\<lambda>x. (x - m)\<^sup>2) xs) / real (length xs - ddof)))"

text \<open>\<open>np.round(x, d)\<close>: to \<open>d\<close> decimals, a tie to the even neighbour.\<close>

definition round_half_even :: "real \<Rightarrow> int" where
  "round_half_even y =
     (let f = \<lfloor>y\<rfloor>; r = y - of_int f
      in if r < 1 / 2 then f else if r > 1 / 2 then f + 1 else if even f then f else f + 1)"

definition np_round :: "real \<Rightarrow> nat \<Rightarrow> real" where
  "np_round x d = of_int (round_half_even (x * 10 ^ d)) / 10 ^ d"

subsection \<open>External collaborators\<close>

text \<open>
  The smoother and the outlier detector are libraries outside the repository; they are
  parameters of the model. Each returns one value per input row, so it is given as a
  function of the input and the row index:
  \<^item> \<open>smoother_fit es i\<close> is the pair of the \<open>i\<close>-th entries of the two arrays
    \<open>(unfolded, steps)\<close> returned by \<open>Smoother(es).fit()\<close>;
  \<^item> \<open>hbos_labels tol table i\<close> is the \<open>i\<close>-th entry of
    \<open>HBOS(tol=tol).fit(table).labels_\<close> read as a boolean (\<open>True\<close> is outlier);
  \<^item> \<open>fit_all_dry_run\<close> is the list of configuration names that
    \<open>Smoother(es).fit_all(dry_run=True, ...)\<close> returns for the requested smoothing
    configurations, and \<open>fit_all es\<close> the named columns of the DataFrame that
    \<open>fit_all\<close> returns for the same request (its column labels are taken to be
    distinct, so that a column is found by its position);
  \<^item> \<open>np_empty i j\<close> is the entry at row \<open>i\<close> and column \<open>j\<close> of the array returned
    by \<open>np.empty\<close>, which is whatever the memory holds.
\<close>

record collaborators =
  smoother_fit :: "real list \<Rightarrow> nat \<Rightarrow> real \<times> real"
  hbos_labels :: "real \<Rightarrow> (real \<times> real) list \<Rightarrow> nat \<Rightarrow> bool"
  fit_all_dry_run :: "string list"
  fit_all :: "real list \<Rightarrow> (string \<times> real list) list"
  np_empty :: "nat \<Rightarrow> nat \<Rightarrow> np_float"

subsection \<open>Trim snapshots\<close>

datatype label = Inlier | Outlier

text \<open>One row of a snapshot DataFrame with the columns eigs, steps, unfolded, sqe, cluster.\<close>

record snapshot_row =
  eigs :: real
  steps :: real
  unfolded :: real
  sqe :: real
  cluster :: label

type_synonym snapshot = "snapshot_row list"

subsection \<open>The edge correction of the detector's labels\<close>

text \<open>
  Lines 329 to 338 of \<open>__get_trim_iters\<close>, on the boolean array \<open>is_outlier\<close>.
\<close>

definition edge_correct :: "bool list \<Rightarrow> py_error + bool list" where
  "edge_correct is_outlier =
     (case py_getitem is_outlier 0 of Inl e \<Rightarrow> Inl e | Inr first \<Rightarrow>
      (case (if first
             then assign_each is_outlier
                    (py_range (find_first is_outlier False) (int (length is_outlier))) False
             else Inr is_outlier) of Inl e \<Rightarrow> Inl e | Inr a1 \<Rightarrow>
       (case py_getitem a1 (- 1) of Inl e \<Rightarrow> Inl e | Inr lst \<Rightarrow>
        (case (if lst
               then assign_each a1 (py_range 0 (find_last a1 False)) False
               else Inr a1) of Inl e \<Rightarrow> Inl e | Inr a2 \<Rightarrow>
         (case py_getitem a2 0 of Inl e \<Rightarrow> Inl e | Inr first2 \<Rightarrow>
          (if \<not> first2
           then (case py_getitem a2 (- 1) of Inl e \<Rightarrow> Inl e | Inr lst2 \<Rightarrow>
                   if \<not> lst2 then Inr (replicate (length a2) False) else Inr a2)
           else Inr a2))))))"

subsection \<open>The trim iteration\<close>

text \<open>Snapshot 0: the full spectrum, the default unfolding, every point an inlier.\<close>

definition initial_snapshot :: "collaborators \<Rightarrow> real list \<Rightarrow> snapshot" where
  "initial_snapshot C es =
     (let st = stepFunctionVectorized es es
      in map (\<lambda>i. let u = fst (smoother_fit C es i)
                  in \<lparr>eigs = es ! i, steps = st ! i, unfolded = u,
                      sqe = (u - st ! i)\<^sup>2, cluster = Inlier\<rparr>)
           [0..<length es])"

text \<open>
  The body of the while loop up to \<open>iter_results.append(df)\<close>: the inliers of the last
  snapshot are given to the detector, the labels are corrected, and the columns cluster,
  unfolded and sqe are replaced (the column steps keeps its old entries).
\<close>

definition trim_iteration :: "collaborators \<Rightarrow> real \<Rightarrow> snapshot \<Rightarrow> py_error + snapshot" where
  "trim_iteration C tolerance prev =
     (let df = filter (\<lambda>r. cluster r = Inlier) prev;
          tbl = map (\<lambda>r. (eigs r, steps r)) df;
          detected = map (hbos_labels C tolerance tbl) [0..<length df]
      in case edge_correct detected of Inl e \<Rightarrow> Inl e | Inr is_outlier \<Rightarrow>
           Inr (map (\<lambda>i. let (u, s) = smoother_fit C (map eigs df) i
                         in (df ! i)\<lparr>cluster := (if is_outlier ! i then Outlier else Inlier),
                                     unfolded := u, sqe := (u - s)\<^sup>2\<rparr>)
                  [0..<length df]))"

text \<open>
  The while loop of \<open>__get_trim_iters\<close>; \<open>n\<close> is \<open>len(eigs)\<close>. The \<open>break\<close> is the branch
  that returns without a further call.
\<close>

function trim_loop ::
  "collaborators \<Rightarrow> real \<Rightarrow> real \<Rightarrow> int \<Rightarrow> nat \<Rightarrow> snapshot list \<Rightarrow> int \<Rightarrow> py_error + snapshot list"
where
  "trim_loop C tolerance max_trim max_iters n iter_results iters_run =
     (if iter_results = [] then Inl IndexError
      else if n = 0 then Inl ZeroDivisionError
      else if real (length (last iter_results)) / real n > max_trim \<and> iters_run < max_iters
      then (case trim_iteration C tolerance (last iter_results) of
              Inl e \<Rightarrow> Inl e
            | Inr df \<Rightarrow>
                if list_all (\<lambda>r. cluster r = Inlier) df
                then Inr (iter_results @ [df])
                else trim_loop C tolerance max_trim max_iters n (iter_results @ [df])
                       (iters_run + 1))
      else Inr iter_results)"
  by pat_completeness auto
termination
  by (relation "measure (\<lambda>(C, tolerance, max_trim, max_iters, n, iter_results, iters_run).
        nat (max_iters - iters_run))") auto

declare trim_loop.simps [simp del]

definition get_trim_iters ::
  "collaborators \<Rightarrow> real list \<Rightarrow> real \<Rightarrow> real \<Rightarrow> int \<Rightarrow> py_error + snapshot list" where
  "get_trim_iters C es tolerance max_trim max_iters =
     trim_loop C tolerance max_trim max_iters (length es) [initial_snapshot C es] 0"

subsection \<open>Scoring an unfolding\<close>

text \<open>
  Modelled from the spec: the constants \<open>EXPECTED_GOE_MEAN\<close> and
  \<open>EXPECTED_GOE_VARIANCE\<close> of \<open>empyricalRMT.rmt._constants\<close> are not among the
  sources. The spec gives the expected mean and the expected variance of the spacings
  as 1.
\<close>

definition EXPECTED_GOE_MEAN :: real where
  "EXPECTED_GOE_MEAN = 1"

definition EXPECTED_GOE_VARIANCE :: real where
  "EXPECTED_GOE_VARIANCE = 1"

definition evaluate_unfolding :: "real list \<Rightarrow> np_float \<times> np_float \<times> np_float" where
  "evaluate_unfolding unfolded_col =
     (let spacings = map2 (-) (drop 1 unfolded_col) (butlast unfolded_col);
          mean = np_mean spacings;
          var = np_var spacings 1;
          mean_weight = Num 0.05;
          mean_norm = np_div (np_sub mean (Num EXPECTED_GOE_MEAN)) (Num EXPECTED_GOE_MEAN);
          var_norm = np_div (np_sub var (Num EXPECTED_GOE_VARIANCE)) (Num EXPECTED_GOE_VARIANCE);
          score = np_add var_norm (np_mul mean_weight mean_norm)
      in (mean, var, score))"

subsection \<open>The report table\<close>

text \<open>A DataFrame with a default index: the column labels and the rows of values.\<close>

record 'a dataframe =
  columns :: "string list"
  data :: "'a list list"

text \<open>The assignment \<open>arr[i, k] = v\<close> on row \<open>i\<close> of the array, \<open>k\<close> not negative.\<close>

definition row_assign :: "'a list \<Rightarrow> nat \<Rightarrow> 'a \<Rightarrow> py_error + 'a list" where
  "row_assign row k v = (if k < length row then Inr (row[k := v]) else Inl IndexError)"

text \<open>The inner loop \<open>for j, col in enumerate(all_unfolds)\<close>, from index \<open>j\<close> on.\<close>

fun store_scores :: "np_float list \<Rightarrow> nat \<Rightarrow> (string \<times> real list) list \<Rightarrow> py_error + np_float list"
where
  "store_scores row j [] = Inr row"
| "store_scores row j (col # cols) =
     (let (mean, var, score) = evaluate_unfolding (snd col)
      in case row_assign row (3 * j + 3) mean of Inl e \<Rightarrow> Inl e | Inr r1 \<Rightarrow>
         (case row_assign r1 (3 * j + 4) var of Inl e \<Rightarrow> Inl e | Inr r2 \<Rightarrow>
          (case row_assign r2 (3 * j + 5) score of Inl e \<Rightarrow> Inl e | Inr r3 \<Rightarrow>
             store_scores r3 (j + 1) cols)))"

text \<open>
  One pass of the outer loop \<open>for i, trim in enumerate(trims)\<close>: row \<open>i\<close> of the array
  after the pass, and the table \<open>all_unfolds\<close> of this pass.
\<close>

definition unfold_trim ::
  "collaborators \<Rightarrow> real list \<Rightarrow> np_float list \<Rightarrow> snapshot
     \<Rightarrow> py_error + (np_float list \<times> (string \<times> real list) list)" where
  "unfold_trim C es row trim =
     (let trimmed = map eigs trim
      in case py_getitem trimmed 0 of Inl e \<Rightarrow> Inl e | Inr t_first \<Rightarrow>
         (let lower_trim_length = find_first es t_first
          in case py_getitem trimmed (- 1) of Inl e \<Rightarrow> Inl e | Inr t_last \<Rightarrow>
             (let upper_trim_length = int (length es) - 1 - find_last es t_last;
                  all_unfolds = fit_all C trimmed
              in if length es = 0 then Inl ZeroDivisionError
                 else
                   (let n = real (length es);
                        trim_percent = np_round (100 * (1 - real (length trimmed) / n)) 3;
                        lower_trim_percent = 100 * real_of_int lower_trim_length / n;
                        upper_trim_percent = 100 * real_of_int upper_trim_length / n
                    in case row_assign row 0 (Num trim_percent) of Inl e \<Rightarrow> Inl e | Inr r0 \<Rightarrow>
                       (case row_assign r0 1 (Num lower_trim_percent) of Inl e \<Rightarrow> Inl e | Inr r1 \<Rightarrow>
                        (case row_assign r1 2 (Num upper_trim_percent) of Inl e \<Rightarrow> Inl e | Inr r2 \<Rightarrow>
                         (case store_scores r2 0 all_unfolds of Inl e \<Rightarrow> Inl e
                          | Inr r \<Rightarrow> Inr (r, all_unfolds))))))))"

text \<open>
  The outer loop from row \<open>i\<close> on: the rows it fills, and \<open>all_unfolds\<close> as the last
  pass leaves it (\<open>None\<close> when there was no pass).
\<close>

fun unfold_rows ::
  "collaborators \<Rightarrow> real list \<Rightarrow> nat \<Rightarrow> nat \<Rightarrow> snapshot list
     \<Rightarrow> (string \<times> real list) list option
     \<Rightarrow> py_error + (np_float list list \<times> (string \<times> real list) list option)" where
  "unfold_rows C es width i [] last_unfolds = Inr ([], last_unfolds)"
| "unfold_rows C es width i (trim # trims) last_unfolds =
     (case unfold_trim C es (map (np_empty C i) [0..<width]) trim of
        Inl e \<Rightarrow> Inl e
      | Inr (row, all_unfolds) \<Rightarrow>
          (case unfold_rows C es width (i + 1) trims (Some all_unfolds) of
             Inl e \<Rightarrow> Inl e
           | Inr (rows, u) \<Rightarrow> Inr (row # rows, u)))"

text \<open>The loop that builds \<open>col_names_final\<close>.\<close>

fun append_col_names :: "string list \<Rightarrow> string list \<Rightarrow> string list" where
  "append_col_names col_names_final [] = col_names_final"
| "append_col_names col_names_final (name # names) =
     append_col_names
       (col_names_final @ [name @ ''--mean_spacing''] @ [name @ ''--var_spacing'']
          @ [name @ ''--score''])
       names"

text \<open>
  \<open>__unfold_across_trims\<close>: the new values of \<open>_unfold_info\<close> and \<open>_all_unfolds\<close>.
\<close>

definition unfold_across_trims ::
  "collaborators \<Rightarrow> real list \<Rightarrow> snapshot list
     \<Rightarrow> py_error + (np_float dataframe \<times> (string \<times> real list) list)" where
  "unfold_across_trims C es trims =
     (let col_names_base = fit_all_dry_run C;
          width = length col_names_base * 3 + 3
      in case unfold_rows C es width 0 trims None of
           Inl e \<Rightarrow> Inl e
         | Inr (arr, last_unfolds) \<Rightarrow>
             (let col_names_final =
                    append_col_names [''trim_percent'', ''trim_low'', ''trim_high''] col_names_base;
                  trim_report = \<lparr>columns = col_names_final, data = arr\<rparr>
              in case last_unfolds of
                   None \<Rightarrow> Inl UnboundLocalError
                 | Some all_unfolds \<Rightarrow> Inr (trim_report, all_unfolds)))"

subsection \<open>The constructor\<close>

record TrimReport =
  untrimmed :: "real list"
  trim_steps :: "snapshot list"
  unfold_info :: "np_float dataframe"
  unfoldings :: "(string \<times> real list) list"

definition TrimReport_init ::
  "collaborators \<Rightarrow> real list \<Rightarrow> real \<Rightarrow> int \<Rightarrow> real \<Rightarrow> py_error + TrimReport" where
  "TrimReport_init C eigenvalues max_trim max_iters outlier_tol =
     (let sorted_eigs = sort eigenvalues
      in case get_trim_iters C sorted_eigs outlier_tol max_trim max_iters of
           Inl e \<Rightarrow> Inl e
         | Inr steps_list \<Rightarrow>
             (case unfold_across_trims C sorted_eigs steps_list of
                Inl e \<Rightarrow> Inl e
              | Inr (report, all_unfolds) \<Rightarrow>
                  Inr \<lparr>untrimmed = sorted_eigs, trim_steps = steps_list,
                       unfold_info = report, unfoldings = all_unfolds\<rparr>))"

subsection \<open>Selecting the best smoothers\<close>

text \<open>
  \<open>s.replace(old, new)\<close> of Python: the occurrences of \<open>old\<close> are replaced from the
  left, without overlap.
\<close>

function str_replace :: "string \<Rightarrow> string \<Rightarrow> string \<Rightarrow> string" where
  "str_replace old new s =
     (if old = [] then new @ concat (map (\<lambda>c. c # new) s)
      else if s = [] then []
      else if prefix old s then new @ str_replace old new (drop (length old) s)
      else hd s # str_replace old new (tl s))"
  by pat_completeness auto
termination
  by (relation "measure (\<lambda>(old, new, s). length s)") auto

declare str_replace.simps [simp del]

text \<open>A column of a DataFrame by its label: the position of the label, and the values.\<close>

definition col_index :: "string list \<Rightarrow> string \<Rightarrow> nat" where
  "col_index cols c = length (takeWhile (\<lambda>x. x \<noteq> c) cols)"

definition df_column :: "real dataframe \<Rightarrow> string \<Rightarrow> real list" where
  "df_column df c = map (\<lambda>row. row ! col_index (columns df) c) (data df)"

text \<open>\<open>df[cols].iloc[r, :]\<close>: the entries of row \<open>r\<close> under the labels \<open>cols\<close>.\<close>

type_synonym series = "(string \<times> real) list"

definition df_row_of :: "real dataframe \<Rightarrow> string list \<Rightarrow> nat \<Rightarrow> py_error + series" where
  "df_row_of df cols r =
     (if \<not> set cols \<subseteq> set (columns df) then Inl KeyError
      else if \<not> r < length (data df) then Inl IndexError
      else Inr (map (\<lambda>c. (c, data df ! r ! col_index (columns df) c)) cols))"

text \<open>\<open>unfolds[names]\<close> on the named columns of \<open>_all_unfolds\<close>.\<close>

definition select_columns ::
  "(string \<times> real list) list \<Rightarrow> string list \<Rightarrow> py_error + (string \<times> real list) list" where
  "select_columns unfolds names =
     (if \<not> set names \<subseteq> fst ` set unfolds then Inl KeyError
      else Inr (map (\<lambda>c. (c, the (map_of unfolds c))) names))"

text \<open>
  Statistics of a column of numbers: \<open>min\<close>, \<open>idxmin\<close> (the first row with the least
  value), \<open>median\<close> and \<open>mean\<close> of pandas, on a column with at least one row.
\<close>

definition col_min :: "real list \<Rightarrow> real" where
  "col_min xs = Min (set xs)"

definition idxmin :: "real list \<Rightarrow> nat" where
  "idxmin xs = length (takeWhile (\<lambda>x. x \<noteq> Min (set xs)) xs)"

definition col_median :: "real list \<Rightarrow> real" where
  "col_median xs =
     (let s = sort xs; n = length xs
      in if odd n then s ! (n div 2) else (s ! (n div 2 - 1) + s ! (n div 2)) / 2)"

definition col_mean :: "real list \<Rightarrow> real" where
  "col_mean xs = sum_list xs / real (length xs)"

text \<open>
  \<open>Series.sort_values()\<close> on labelled values and \<open>np.argsort\<close>: ascending. The order
  of equal values is the one of a stable sort.
\<close>

definition sort_values :: "(string \<times> real) list \<Rightarrow> (string \<times> real) list" where
  "sort_values ser = sort_key snd ser"

definition argsort :: "real list \<Rightarrow> nat list" where
  "argsort xs = map snd (sort_key fst (zip xs [0..<length xs]))"

text \<open>The keys of \<open>to_dict()\<close>: every label once, in the order of its first occurrence.\<close>

definition dict_keys :: "(string \<times> real) list \<Rightarrow> string list" where
  "dict_keys ser = rev (remdups (rev (map fst ser)))"

datatype dict_key = StrKey string | IntKey nat

text \<open>
  The loop \<open>for i, col in enumerate(best_smoother_cols)\<close> from index \<open>i\<close> on; every
  column comes with its entry of \<open>best_smoother_rows\<close>.
\<close>

fun fill_best_smoothers ::
  "real dataframe \<Rightarrow> nat \<Rightarrow> (string \<times> nat) list \<Rightarrow> (dict_key \<rightharpoonup> series)
     \<Rightarrow> py_error + (dict_key \<rightharpoonup> series)" where
  "fill_best_smoothers report i [] best_smoothers = Inr best_smoothers"
| "fill_best_smoothers report i ((col, min_score_i) # rest) best_smoothers =
     (let trim_cols = [''trim_percent'', ''trim_low'', ''trim_high''];
          cols = trim_cols @ [str_replace ''score'' ''mean_spacing'' col,
                              str_replace ''score'' ''var_spacing'' col, col]
      in case df_row_of report cols min_score_i of
           Inl e \<Rightarrow> Inl e
         | Inr entry \<Rightarrow>
             (let b1 = (if i = 0 then best_smoothers(StrKey ''best'' \<mapsto> entry)
                        else if i = 1 then best_smoothers(StrKey ''second'' \<mapsto> entry)
                        else if i = 2 then best_smoothers(StrKey ''third'' \<mapsto> entry)
                        else best_smoothers)
              in fill_best_smoothers report (i + 1) rest (b1(IntKey i \<mapsto> entry))))"

text \<open>
  The local variables of \<open>summarize_trim_unfoldings\<close>, as functions of the report
  table, which is taken to hold numbers only. \<open>scores\<close> are the columns whose label
  matches \<open>.*score.*\<close>, in absolute value; \<open>top_smoothers stat\<close> is the set of the
  labels of the three columns with the least statistic (\<open>top_smoothers_median\<close> and
  \<open>top_smoothers_mean\<close> of the source).
\<close>

definition scores :: "real dataframe \<Rightarrow> (string \<times> real list) list" where
  "scores report =
     map (\<lambda>j. (columns report ! j, map (\<lambda>row. \<bar>row ! j\<bar>) (data report)))
       (filter (\<lambda>j. sublist ''score'' (columns report ! j)) [0..<length (columns report)])"

definition score_cols :: "real dataframe \<Rightarrow> string list" where
  "score_cols report = map fst (scores report)"

definition best_smoother_cols :: "real dataframe \<Rightarrow> string list" where
  "best_smoother_cols report =
     dict_keys (take 3 (sort_values
       (map (\<lambda>(c, xs). (c, col_min (map abs xs))) (scores report))))"

definition best_smoother_rows :: "real dataframe \<Rightarrow> nat list" where
  "best_smoother_rows report =
     map (\<lambda>c. idxmin (map abs (df_column report c))) (best_smoother_cols report)"

definition top_smoothers :: "(real list \<Rightarrow> real) \<Rightarrow> real dataframe \<Rightarrow> string set" where
  "top_smoothers stat report =
     (let stat_scores = map (\<lambda>(c, xs). stat xs) (scores report);
          best_col_idx = take 3 (argsort stat_scores)
      in set (map (\<lambda>j. score_cols report ! j) best_col_idx))"

text \<open>
  The list \<open>consistent\<close> is made from a Python set, whose order is not fixed: it is given
  as a multiset.
\<close>

definition consistent :: "real dataframe \<Rightarrow> string multiset" where
  "consistent report =
     image_mset (str_replace ''--score'' [])
       (mset_set (top_smoothers col_mean report \<inter> top_smoothers col_median report))"

text \<open>
  \<open>summarize_trim_unfoldings\<close> on the report table and the unfoldings of a TrimReport.
  On a table without rows \<open>idxmin\<close> raises if there is a column to look at.
\<close>

definition summarize_trim_unfoldings ::
  "real dataframe \<Rightarrow> (string \<times> real list) list
     \<Rightarrow> py_error + ((dict_key \<rightharpoonup> series) \<times> (string \<times> real list) list \<times> string multiset)"
where
  "summarize_trim_unfoldings report unfolds =
     (if data report = [] \<and> scores report \<noteq> [] then Inl ValueError
      else case select_columns unfolds
                  (map (str_replace ''--score'' []) (best_smoother_cols report)) of
             Inl e \<Rightarrow> Inl e
           | Inr best_unfoldeds \<Rightarrow>
               (case fill_best_smoothers report 0
                       (zip (best_smoother_cols report) (best_smoother_rows report)) Map.empty of
                  Inl e \<Rightarrow> Inl e
                | Inr best_smoothers \<Rightarrow>
                    Inr (best_smoothers, best_unfoldeds, consistent report)))"

subsection \<open>A concrete setting for examples\<close>

text \<open>
  A detector that flags the first and the third row of every table, a smoother that
  returns the eigenvalues themselves, and two smoothing configurations.
\<close>

definition demo :: collaborators where
  "demo = \<lparr>smoother_fit = (\<lambda>es i. (es ! i, real i)),
           hbos_labels = (\<lambda>tol tbl i. i = 0 \<or> i = 2),
           fit_all_dry_run = [''poly_3'', ''gompertz''],
           fit_all = (\<lambda>es. [(''poly_3'', es), (''gompertz'', map (\<lambda>x. 2 * x) es)]),
           np_empty = (\<lambda>i j. NaN)\<rparr>"

text \<open>The same setting with a detector that flags the first row only.\<close>

definition flag_first :: collaborators where
  "flag_first = demo\<lparr>hbos_labels := (\<lambda>tol tbl i. i = 0)\<rparr>"

text \<open>
  A report table with four smoothing configurations and three trims, and unfoldings for
  the four configurations.
\<close>

definition demo_table :: "real dataframe" where
  "demo_table =
     \<lparr>columns = [''trim_percent'', ''trim_low'', ''trim_high'',
                 ''a--mean_spacing'', ''a--var_spacing'', ''a--score'',
                 ''b--mean_spacing'', ''b--var_spacing'', ''b--score'',
                 ''c--mean_spacing'', ''c--var_spacing'', ''c--score'',
                 ''d--mean_spacing'', ''d--var_spacing'', ''d--score''],
      data = [[0, 0, 0, 1, 1, 50, 1, 1, 20, 1, 1, - 5, 1, 1, 40],
              [10, 5, 5, 1, 1, - 10, 1, 1, 20, 1, 1, 90, 1, 1, 30],
              [20, 10, 10, 1, 1, 30, 1, 1, - 80, 1, 1, 10, 1, 1, 35]]\<rparr>"

definition demo_unfolds :: "(string \<times> real list) list" where
  "demo_unfolds = [(''a'', [1, 2]), (''b'', [1, 3]), (''c'', [1, 4]), (''d'', [1, 5])]"

text \<open>
  A report table with five smoothing configurations and four trims. The absolute scores
  have the medians 20, 5, 19, 8, 2 and the means 20, 28, 19, 8, 23.75 for \<open>a\<close> to \<open>e\<close>:
  the three least medians belong to \<open>e\<close>, \<open>b\<close>, \<open>d\<close> and the three least means to
  \<open>d\<close>, \<open>c\<close>, \<open>a\<close>.
\<close>

definition trims_table :: "real dataframe" where
  "trims_table =
     \<lparr>columns = [''trim_percent'', ''trim_low'', ''trim_high'',
                 ''a--mean_spacing'', ''a--var_spacing'', ''a--score'',
                 ''b--mean_spacing'', ''b--var_spacing'', ''b--score'',
                 ''c--mean_spacing'', ''c--var_spacing'', ''c--score'',
                 ''d--mean_spacing'', ''d--var_spacing'', ''d--score'',
                 ''e--mean_spacing'', ''e--var_spacing'', ''e--score''],
      data = [[0, 0, 0, 1, 1, 10, 1, 1, 2, 1, 1, 24, 1, 1, 8, 1, 1, 1],
              [10, 5, 5, 1, 1, - 10, 1, 1, 100, 1, 1, 14, 1, 1, - 8, 1, 1, 3],
              [20, 10, 10, 1, 1, 30, 1, 1, - 4, 1, 1, - 14, 1, 1, 8, 1, 1, - 90],
              [30, 15, 15, 1, 1, 30, 1, 1, 6, 1, 1, 24, 1, 1, 8, 1, 1, 1]]\<rparr>"

definition trims_unfolds :: "(string \<times> real list) list" where
  "trims_unfolds = [(''a'', [1, 2]), (''b'', [1, 3]), (''c'', [1, 4]), (''d'', [1, 5]),
                    (''e'', [1, 6])]"

subsection \<open>The loop condition as the specification words it\<close>

text \<open>
  The specification lets the loop run while the number of inlier-labelled points of the
  last snapshot, divided by the number of eigenvalues, exceeds \<open>max_trim\<close> and the
  number of iterations run is below \<open>max_iters\<close>.
\<close>

definition spec_loop_condition :: "real \<Rightarrow> int \<Rightarrow> nat \<Rightarrow> snapshot \<Rightarrow> int \<Rightarrow> bool" where
  "spec_loop_condition max_trim max_iters total_count last_snapshot iters_run \<longleftrightarrow>
     real (length (filter (\<lambda>r. cluster r = Inlier) last_snapshot)) / real total_count > max_trim
     \<and> iters_run < max_iters"

subsection \<open>The score as the specification words it\<close>

text \<open>
  The successive differences of a column, their mean, their sample variance with one
  degree of freedom removed, and the score formula of the specification.
\<close>

definition successive_differences :: "real list \<Rightarrow> real list" where
  "successive_differences xs = map (\<lambda>i. xs ! Suc i - xs ! i) [0..<length xs - 1]"

definition mean_of :: "real list \<Rightarrow> real" where
  "mean_of ds = sum_list ds / real (length ds)"

definition sample_variance :: "real list \<Rightarrow> real" where
  "sample_variance ds = (\<Sum>d\<leftarrow>ds. (d - mean_of ds)\<^sup>2) / (real (length ds) - 1)"

definition spec_score :: "real \<Rightarrow> real \<Rightarrow> real" where
  "spec_score mean_spacing var_spacing
     = (var_spacing - 1) / 1 + 0.05 * (mean_spacing - 1) / 1"

subsection \<open>The ranking as the specification words it\<close>

text \<open>
  The least absolute score of a score column over all rows, and what it means for a set
  of labels to be three with the least value of a statistic: no label outside the set has
  a smaller value than a label inside.
\<close>

definition min_abs_score :: "real dataframe \<Rightarrow> string \<Rightarrow> real" where
  "min_abs_score report c = Min (abs ` set (df_column report c))"

definition lowest_three :: "(string \<Rightarrow> real) \<Rightarrow> string list \<Rightarrow> string set \<Rightarrow> bool" where
  "lowest_three f cols T \<longleftrightarrow>
     T \<subseteq> set cols \<and> card T = min 3 (length cols)
     \<and> (\<forall>c \<in> T. \<forall>c' \<in> set cols - T. f c \<le> f c')"

text \<open>
  The median of a column, stated by counting and without sorting. The value of rank \<open>k\<close>
  (ranks start at 0) is the least value \<open>v\<close> of the column such that more than \<open>k\<close>
  entries are at most \<open>v\<close>. The median of \<open>n\<close> values is the mean of the values of the
  ranks \<open>(n - 1) div 2\<close> and \<open>n div 2\<close>: the middle value when \<open>n\<close> is odd, the mean
  of the two middle values when \<open>n\<close> is even. The mean of a column is \<open>mean_of\<close> above.
\<close>

definition rank_value :: "real list \<Rightarrow> nat \<Rightarrow> real" where
  "rank_value xs k = Min (set (filter (\<lambda>v. k < length (filter (\<lambda>x. x \<le> v) xs)) xs))"

definition median_of :: "real list \<Rightarrow> real" where
  "median_of xs =
     (rank_value xs ((length xs - 1) div 2) + rank_value xs (length xs div 2)) / 2"

text \<open>The labels \<open>cols\<close> of an entry of \<open>best_smoothers\<close> for the score column \<open>col\<close>.\<close>

definition best_smoother_labels :: "string \<Rightarrow> string list" where
  "best_smoother_labels col =
     [''trim_percent'', ''trim_low'', ''trim_high'', str_replace ''score'' ''mean_spacing'' col,
      str_replace ''score'' ''var_spacing'' col, col]"

section \<open>Properties of the edge correction\<close>

lemma assign_each_append:
  "assign_each xs (is @ js) v =
     (case assign_each xs is v of Inl e \<Rightarrow> Inl e | Inr xs' \<Rightarrow> assign_each xs' js v)"
  by (induction "is" arbitrary: xs) (auto split: sum.splits)

lemma py_setitem_nat: "k < length xs \<Longrightarrow> py_setitem xs (int k) v = Inr (xs[k := v])"
  by (simp add: py_setitem_def py_index_def)

lemma py_getitem_first: "xs \<noteq> [] \<Longrightarrow> py_getitem xs 0 = Inr (hd xs)"
  by (cases xs) (simp_all add: py_getitem_def py_index_def)

lemma py_getitem_last: "xs \<noteq> [] \<Longrightarrow> py_getitem xs (- 1) = Inr (last xs)"
  by (simp add: py_getitem_def py_index_def last_conv_nth nat_diff_distrib')

lemma py_getitem_Nil: "py_getitem [] i = Inl IndexError"
  by (simp add: py_getitem_def py_index_def)

lemma update_run:
  "a \<le> b \<Longrightarrow> b < length xs \<Longrightarrow>
   (take a xs @ replicate (b - a) v @ drop b xs)[b := v]
     = take a xs @ replicate (Suc b - a) v @ drop (Suc b) xs"
  by (simp add: list_update_append Suc_diff_le replicate_append_same
      flip: Cons_nth_drop_Suc)

lemma assign_each_upt:
  "a \<le> b \<Longrightarrow> b \<le> length xs \<Longrightarrow>
   assign_each xs (map int [a..<b]) v = Inr (take a xs @ replicate (b - a) v @ drop b xs)"
proof (induction b)
  case 0
  then show ?case by simp
next
  case (Suc b)
  show ?case
  proof (cases "a = Suc b")
    case True
    then show ?thesis by simp
  next
    case False
    with Suc.prems have ab: "a \<le> b" and bl: "b < length xs" by simp_all
    have IH: "assign_each xs (map int [a..<b]) v = Inr (take a xs @ replicate (b - a) v @ drop b xs)"
      using Suc.IH ab bl by simp
    show ?thesis using ab bl IH update_run [OF ab bl, of v]
      by (simp add: assign_each_append py_setitem_nat)
  qed
qed

lemma upto_nat: "0 \<le> a \<Longrightarrow> [a..b - 1] = map int [nat a..<nat b]"
proof (induction "nat b - nat a" arbitrary: a)
  case 0
  then show ?case by simp
next
  case (Suc k)
  then have ab: "a \<le> b - 1" by linarith
  have "k = nat b - nat (a + 1)" using Suc by linarith
  then have "[a + 1..b - 1] = map int [nat (a + 1)..<nat b]"
    using Suc by simp
  moreover have "[nat a..<nat b] = nat a # [nat (a + 1)..<nat b]"
    using Suc ab by (simp add: upt_conv_Cons nat_add_distrib)
  ultimately show ?case using ab Suc.prems by (simp add: upto_rec1 [of a "b - 1"])
qed

lemma assign_each_range:
  "a \<le> b \<Longrightarrow> b \<le> length xs \<Longrightarrow>
   assign_each xs (py_range (int a) (int b)) v
     = Inr (take a xs @ replicate (b - a) v @ drop b xs)"
  by (simp add: py_range_def upto_nat assign_each_upt)

lemma length_takeWhile_less:
  "\<exists>x \<in> set xs. \<not> P x \<Longrightarrow> length (takeWhile P xs) < length xs"
  by (induction xs) auto

lemma takeWhile_id_replicate: "takeWhile (\<lambda>b. b) ls = replicate (length (takeWhile (\<lambda>b. b) ls)) True"
  by (induction ls) auto

lemma assign_each_from_minus_one:
  assumes "xs \<noteq> []"
  shows "assign_each xs (py_range (- 1) (int (length xs))) v = Inr (replicate (length xs) v)"
proof -
  have r: "py_range (- 1) (int (length xs)) = (- 1) # py_range (int 0) (int (length xs))"
    using assms by (simp add: py_range_def upto_rec1 [of "- 1"])
  have s: "py_setitem xs (- 1) v = Inr (xs[length xs - 1 := v])"
    using assms by (simp add: py_setitem_def py_index_def nat_diff_distrib')
  show ?thesis
    unfolding r using s assign_each_range [of 0 "length xs" "xs[length xs - 1 := v]" v]
    by simp
qed

lemma edge_correct_first:
  assumes ne: "ls \<noteq> []" and h: "hd ls" and f: "False \<in> set ls"
  shows "edge_correct ls = Inr (replicate (length (takeWhile (\<lambda>b. b) ls)) True
            @ replicate (length ls - length (takeWhile (\<lambda>b. b) ls)) False)"
proof -
  define p where "p = length (takeWhile (\<lambda>b. b) ls)"
  define a1 where "a1 = replicate p True @ replicate (length ls - p) False"
  have plt: "p < length ls"
    unfolding p_def using f by (intro length_takeWhile_less) auto
  have ppos: "0 < p"
    unfolding p_def using ne h by (cases ls) auto
  have ff: "find_first ls False = int p"
    using f by (simp add: find_first_def p_def)
  have tk: "take p ls = replicate p True"
    unfolding p_def using takeWhile_id_replicate [of ls] by (simp flip: takeWhile_eq_take)
  have step1: "assign_each ls (py_range (find_first ls False) (int (length ls))) False = Inr a1"
    unfolding ff a1_def using plt tk by (simp add: assign_each_range)
  have a1ne: "a1 \<noteq> []" using plt by (simp add: a1_def)
  have l1: "last a1 = False" using plt by (simp add: a1_def)
  have h1: "hd a1 = True" using ppos by (cases p) (simp_all add: a1_def)
  show ?thesis
    unfolding edge_correct_def
    using ne h step1 a1ne l1 h1
    by (simp add: py_getitem_first py_getitem_last a1_def p_def)
qed

lemma edge_correct_all_outliers:
  assumes ne: "ls \<noteq> []" and f: "False \<notin> set ls"
  shows "edge_correct ls = Inr (replicate (length ls) False)"
proof -
  have h: "hd ls" using ne f by (cases ls; cases "hd ls") auto
  have ff: "find_first ls False = - 1" using f by (simp add: find_first_def)
  show ?thesis
    unfolding edge_correct_def
    using ne h ff assign_each_from_minus_one [OF ne, of False]
    by (simp add: py_getitem_first py_getitem_last)
qed

lemma edge_correct_last:
  assumes ne: "ls \<noteq> []" and h: "\<not> hd ls" and l: "last ls"
  shows "edge_correct ls = Inr (replicate (length ls - length (takeWhile (\<lambda>b. b) (rev ls))) False
            @ replicate (length (takeWhile (\<lambda>b. b) (rev ls))) True)"
proof -
  define q where "q = length (takeWhile (\<lambda>b. b) (rev ls))"
  define a2 where "a2 = replicate (length ls - q) False @ replicate q True"
  have f: "False \<in> set ls" using ne h by (cases ls) auto
  have qlt: "q < length ls"
    unfolding q_def using f length_takeWhile_less [of "rev ls" "\<lambda>b. b"] by auto
  have qpos: "0 < q"
    unfolding q_def using ne l by (cases "rev ls") (auto simp: last_rev hd_rev)
  have fl: "find_last ls False = int (length ls - 1 - q)"
    using f qlt by (simp add: find_last_def q_def) 
  have dr: "drop (length ls - q) ls = replicate q True"
  proof -
    have "rev (drop (length ls - q) ls) = take q (rev ls)"
      using qlt by (simp add: rev_drop)
    also have "\<dots> = replicate q True"
      unfolding q_def using takeWhile_id_replicate [of "rev ls"] by (simp flip: takeWhile_eq_take)
    finally show ?thesis by (metis rev_replicate rev_rev_ident)
  qed
  have "\<not> (rev ls ! q)"
    unfolding q_def using qlt by (intro nth_length_takeWhile) (simp add: q_def)
  then have nth: "ls ! (length ls - 1 - q) = False"
    using qlt by (simp add: rev_nth)
  have "drop (length ls - 1 - q) ls = ls ! (length ls - 1 - q) # drop (length ls - q) ls"
    using qlt Cons_nth_drop_Suc [of "length ls - 1 - q" ls]
    by (simp add: Suc_diff_Suc)
  then have dr': "drop (length ls - 1 - q) ls = False # replicate q True"
    using nth dr by simp
  have "assign_each ls (py_range (int 0) (int (length ls - 1 - q))) False
          = Inr (replicate (length ls - 1 - q) False @ drop (length ls - 1 - q) ls)"
    using qlt by (subst assign_each_range) simp_all
  also have "replicate (length ls - 1 - q) False @ drop (length ls - 1 - q) ls = a2"
  proof -
    have "length ls - q = Suc (length ls - 1 - q)" using qlt by simp
    then show ?thesis unfolding dr' a2_def by (simp add: replicate_app_Cons_same)
  qed
  finally have step2: "assign_each ls (py_range 0 (find_last ls False)) False = Inr a2"
    using fl by simp
  have a2ne: "a2 \<noteq> []" using qlt by (simp add: a2_def)
  have l2: "last a2 = True" using qpos by (simp add: a2_def)
  have h2: "hd a2 = False" using qlt by (cases "length ls - q") (simp_all add: a2_def)
  show ?thesis
    unfolding edge_correct_def
    using ne h l step2 a2ne l2 h2
    by (simp add: py_getitem_first py_getitem_last a2_def q_def)
qed

lemma edge_correct_Nil: "edge_correct [] = Inl IndexError"
  by (simp add: edge_correct_def py_getitem_Nil)

lemma edge_correct_neither:
  assumes ne: "ls \<noteq> []" and h: "\<not> hd ls" and l: "\<not> last ls"
  shows "edge_correct ls = Inr (replicate (length ls) False)"
  unfolding edge_correct_def using ne h l
  by (simp add: py_getitem_first py_getitem_last)

lemma edge_correct_shape:
  assumes "edge_correct ls = Inr ls'"
  shows "\<exists>p m q. ls' = replicate p True @ replicate m False @ replicate q True
           \<and> 0 < m \<and> (p = 0 \<or> q = 0) \<and> p + m + q = length ls"
proof -
  have ne: "ls \<noteq> []" using assms edge_correct_Nil by auto
  consider (a) "hd ls" "False \<in> set ls" | (b) "False \<notin> set ls"
    | (c) "\<not> hd ls" "last ls" | (d) "\<not> hd ls" "\<not> last ls"
    by blast
  then show ?thesis
  proof cases
    case a
    let ?p = "length (takeWhile (\<lambda>b. b) ls)"
    have "?p < length ls" using a by (intro length_takeWhile_less) auto
    moreover have "ls' = replicate ?p True @ replicate (length ls - ?p) False @ replicate 0 True"
      using assms edge_correct_first [OF ne a] by simp
    ultimately show ?thesis by (intro exI conjI) (assumption, simp_all)
  next
    case b
    have "ls' = replicate 0 True @ replicate (length ls) False @ replicate 0 True"
      using assms edge_correct_all_outliers [OF ne b] by simp
    then show ?thesis using ne by (intro exI conjI) (assumption, simp_all)
  next
    case c
    let ?q = "length (takeWhile (\<lambda>b. b) (rev ls))"
    have "False \<in> set ls" using ne c by (cases ls) auto
    then have "?q < length ls" using length_takeWhile_less [of "rev ls" "\<lambda>b. b"] by auto
    moreover have "ls' = replicate 0 True @ replicate (length ls - ?q) False @ replicate ?q True"
      using assms edge_correct_last [OF ne c] by simp
    ultimately show ?thesis by (intro exI conjI) (assumption, simp_all)
  next
    case d
    have "ls' = replicate 0 True @ replicate (length ls) False @ replicate 0 True"
      using assms edge_correct_neither [OF ne d] by simp
    then show ?thesis using ne by (intro exI conjI) (assumption, simp_all)
  qed
qed

lemma edge_correct_total: "ls \<noteq> [] \<Longrightarrow> \<exists>ls'. edge_correct ls = Inr ls'"
proof -
  assume ne: "ls \<noteq> []"
  consider (a) "hd ls" "False \<in> set ls" | (b) "False \<notin> set ls"
    | (c) "\<not> hd ls" "last ls" | (d) "\<not> hd ls" "\<not> last ls"
    by blast
  then show ?thesis
  proof cases
    case a
    then show ?thesis using edge_correct_first [OF ne] by blast
  next
    case b
    then show ?thesis using edge_correct_all_outliers [OF ne] by blast
  next
    case c
    then show ?thesis using edge_correct_last [OF ne] by blast
  next
    case d
    then show ?thesis using edge_correct_neither [OF ne] by blast
  qed
qed

text \<open>
  Claim C2, as stated, fails: when both ends are flagged, the correction forces every
  point from the first inlier on to inlier, the flagged right end included, so the outlier
  suffix does not survive.
\<close>

theorem edge_correct_both_ends_counterexample:
  "edge_correct [True, False, False, True] = Inr [True, False, False, False]"
  by code_simp

text \<open>
  Claim C2, amended. On labels with at least one inlier and with at most one end flagged,
  the correction keeps the flagged end only. When the first point is flagged, exactly the
  leading run of outliers stays outlier and every point from the first inlier on is
  forced to inlier. When the last point is flagged, exactly the trailing run of outliers
  stays outlier and every point up to the last inlier is forced to inlier. When neither
  end is flagged, every point is forced to inlier.
\<close>

theorem edge_correct_keeps_one_end:
  assumes "False \<in> set ls" and "\<not> (hd ls \<and> last ls)"
  shows "edge_correct ls = Inr
           (if hd ls
            then takeWhile (\<lambda>b. b) ls
                   @ replicate (length ls - length (takeWhile (\<lambda>b. b) ls)) False
            else if last ls
            then replicate (length ls - length (takeWhile (\<lambda>b. b) (rev ls))) False
                   @ rev (takeWhile (\<lambda>b. b) (rev ls))
            else replicate (length ls) False)"
proof -
  have ne: "ls \<noteq> []" using assms(1) by auto
  have r: "rev (takeWhile (\<lambda>b. b) (rev ls))
             = replicate (length (takeWhile (\<lambda>b. b) (rev ls))) True"
    using takeWhile_id_replicate [of "rev ls"] by (metis rev_replicate)
  show ?thesis
    using edge_correct_first [OF ne _ assms(1)] edge_correct_last [OF ne]
      edge_correct_neither [OF ne] takeWhile_id_replicate [of ls] r
    by auto
qed

theorem edge_correct_keeps_one_end_witness:
  "False \<in> set [True, True, False, True, False, False]
   \<and> \<not> (hd [True, True, False, True, False, False] \<and> last [True, True, False, True, False, False])
   \<and> edge_correct [True, True, False, True, False, False]
       = Inr [True, True, False, False, False, False]"
  using edge_correct_keeps_one_end [of "[True, True, False, True, False, False]"]
  by simp

section \<open>Properties of the trim iteration\<close>

lemma trim_iteration_labels:
  assumes "trim_iteration C tol prev = Inr df"
  shows "\<exists>ls'. edge_correct (map (hbos_labels C tol (map (\<lambda>r. (eigs r, steps r))
                     (filter (\<lambda>r. cluster r = Inlier) prev)))
                   [0..<length (filter (\<lambda>r. cluster r = Inlier) prev)]) = Inr ls'
          \<and> length ls' = length (filter (\<lambda>r. cluster r = Inlier) prev)
          \<and> map cluster df = map (\<lambda>b. if b then Outlier else Inlier) ls'
          \<and> map eigs df = map eigs (filter (\<lambda>r. cluster r = Inlier) prev)"
proof -
  let ?df = "filter (\<lambda>r. cluster r = Inlier) prev"
  let ?det = "map (hbos_labels C tol (map (\<lambda>r. (eigs r, steps r)) ?df)) [0..<length ?df]"
  obtain ls' where ec: "edge_correct ?det = Inr ls'"
    using assms by (auto simp: trim_iteration_def Let_def split: sum.splits)
  have len: "length ls' = length ?df"
    using edge_correct_shape [OF ec] by auto
  have df: "df = map (\<lambda>i. let (u, s) = smoother_fit C (map eigs ?df) i
                         in (?df ! i)\<lparr>cluster := (if ls' ! i then Outlier else Inlier),
                                     unfolded := u, sqe := (u - s)\<^sup>2\<rparr>)
                  [0..<length ?df]"
    using assms ec by (simp add: trim_iteration_def Let_def)
  have "map cluster df = map (\<lambda>b. if b then Outlier else Inlier) ls'"
    unfolding df using len
    by (intro nth_equalityI) (simp_all add: Let_def split: prod.splits)
  moreover have "map eigs df = map eigs ?df"
    unfolding df
    by (intro nth_equalityI) (simp_all add: Let_def split: prod.splits)
  ultimately show ?thesis using ec len by blast
qed

lemma trim_iteration_shape:
  assumes "trim_iteration C tol prev = Inr df"
  shows "\<exists>p m q. map cluster df = replicate p Outlier @ replicate m Inlier @ replicate q Outlier
           \<and> 0 < m \<and> (p = 0 \<or> q = 0)"
proof -
  from trim_iteration_labels [OF assms] obtain ls' ls where
    ec: "edge_correct ls = Inr ls'" and
    cl: "map cluster df = map (\<lambda>b. if b then Outlier else Inlier) ls'"
    by blast
  from edge_correct_shape [OF ec] obtain p m q where
    "ls' = replicate p True @ replicate m False @ replicate q True" "0 < m" "p = 0 \<or> q = 0"
    by blast
  then show ?thesis using cl by (intro exI [of _ p] exI [of _ m] exI [of _ q]) simp
qed

lemma trim_iteration_total:
  assumes "\<exists>r \<in> set prev. cluster r = Inlier"
  shows "\<exists>df. trim_iteration C tol prev = Inr df"
proof -
  let ?df = "filter (\<lambda>r. cluster r = Inlier) prev"
  let ?det = "map (hbos_labels C tol (map (\<lambda>r. (eigs r, steps r)) ?df)) [0..<length ?df]"
  have "?df \<noteq> []" using assms by (simp add: filter_empty_conv)
  then have "?det \<noteq> []" by simp
  then obtain ls' where "edge_correct ?det = Inr ls'"
    using edge_correct_total by blast
  then show ?thesis by (simp add: trim_iteration_def Let_def)
qed

lemma trim_loop_structure:
  assumes "trim_loop C tol mt mi n irs ir = Inr snaps"
  shows "irs \<noteq> [] \<and> take (length irs) snaps = irs \<and> length irs \<le> length snaps
         \<and> (\<forall>k. length irs \<le> k \<and> k < length snaps
                \<longrightarrow> trim_iteration C tol (snaps ! (k - 1)) = Inr (snaps ! k))"
  using assms
proof (induction C tol mt mi n irs ir rule: trim_loop.induct)
  case (1 C tol mt mi n irs ir)
  from "1.prems" have ne: "irs \<noteq> []" and n0: "n \<noteq> 0"
    by (auto simp: trim_loop.simps [of C tol mt mi n irs ir] split: if_splits)
  show ?case
  proof (cases "real (length (last irs)) / real n > mt \<and> ir < mi")
    case False
    with "1.prems" ne n0 have "snaps = irs"
      by (auto simp: trim_loop.simps [of C tol mt mi n irs ir])
    with ne show ?thesis by auto
  next
    case True
    then obtain df where ti: "trim_iteration C tol (last irs) = Inr df"
      using "1.prems" ne n0
      by (auto simp: trim_loop.simps [of C tol mt mi n irs ir] split: sum.splits)
    show ?thesis
    proof (cases "list_all (\<lambda>r. cluster r = Inlier) df")
      case all: True
      with "1.prems" ne n0 True ti have s: "snaps = irs @ [df]"
        by (auto simp: trim_loop.simps [of C tol mt mi n irs ir])
      have "\<And>k. length irs \<le> k \<Longrightarrow> k < length snaps \<Longrightarrow>
              trim_iteration C tol (snaps ! (k - 1)) = Inr (snaps ! k)"
      proof -
        fix k assume "length irs \<le> k" "k < length snaps"
        then have k: "k = length irs" using s by simp
        show "trim_iteration C tol (snaps ! (k - 1)) = Inr (snaps ! k)"
          using ne ti unfolding k s by (simp add: nth_append last_conv_nth)
      qed
      then show ?thesis using ne s by simp
    next
      case notall: False
      with "1.prems" ne n0 True ti
      have rec: "trim_loop C tol mt mi n (irs @ [df]) (ir + 1) = Inr snaps"
        by (auto simp: trim_loop.simps [of C tol mt mi n irs ir])
      from "1.IH" [OF ne n0 True ti notall rec]
      have tk: "take (length (irs @ [df])) snaps = irs @ [df]"
        and le: "length (irs @ [df]) \<le> length snaps"
        and st: "\<forall>k. length (irs @ [df]) \<le> k \<and> k < length snaps
                \<longrightarrow> trim_iteration C tol (snaps ! (k - 1)) = Inr (snaps ! k)"
        by simp_all
      have tk': "take (length irs) snaps = irs"
        using tk by (metis append_eq_conv_conj take_take min.idem length_append_singleton
            le_add1 min_def take_all_iff Suc_eq_plus1 lessI less_or_eq_imp_le)
      have "\<And>k. length irs \<le> k \<Longrightarrow> k < length snaps \<Longrightarrow>
              trim_iteration C tol (snaps ! (k - 1)) = Inr (snaps ! k)"
      proof -
        fix k assume a: "length irs \<le> k" "k < length snaps"
        show "trim_iteration C tol (snaps ! (k - 1)) = Inr (snaps ! k)"
        proof (cases "k = length irs")
          case True
          have "snaps ! k = (irs @ [df]) ! k" "snaps ! (k - 1) = (irs @ [df]) ! (k - 1)"
            using tk True le by (metis nth_take length_append_singleton lessI diff_less_Suc)+
          then show ?thesis using ne ti True by (simp add: nth_append last_conv_nth)
        next
          case False
          then show ?thesis using a st by simp
        qed
      qed
      then show ?thesis using ne tk' le by simp
    qed
  qed
qed

lemma contiguous_run_nth:
  assumes d: "map cluster s = replicate p Outlier @ replicate m Inlier @ replicate q Outlier"
    and "a < b" "b < c" "c < length s"
    and ia: "cluster (s ! a) = Inlier" and ic: "cluster (s ! c) = Inlier"
  shows "cluster (s ! b) = Inlier"
proof -
  have len: "length s = p + m + q"
    using arg_cong [OF d, of length] by simp
  have nth: "\<And>k. k < length s \<Longrightarrow> cluster (s ! k) =
      (replicate p Outlier @ replicate m Inlier @ replicate q Outlier) ! k"
    using d by (metis nth_map)
  have "p \<le> a"
  proof (rule ccontr)
    assume "\<not> p \<le> a"
    then have "cluster (s ! a) = Outlier" using nth [of a] assms(2-4) by (simp add: nth_append)
    with ia show False by simp
  qed
  moreover have "c < p + m"
  proof (rule ccontr)
    assume "\<not> c < p + m"
    then have "cluster (s ! c) = Outlier" using nth [of c] assms(4) len by (simp add: nth_append)
    with ic show False by simp
  qed
  ultimately have "p \<le> b" "b < p + m" using assms(2,3) by simp_all
  then show ?thesis using nth [of b] assms(3,4) by (simp add: nth_append)
qed

lemma get_trim_iters_structure:
  assumes "get_trim_iters C es tol mt mi = Inr snaps"
  shows "snaps \<noteq> [] \<and> snaps ! 0 = initial_snapshot C es
         \<and> (\<forall>k. 0 < k \<and> k < length snaps
                \<longrightarrow> trim_iteration C tol (snaps ! (k - 1)) = Inr (snaps ! k))"
proof -
  from trim_loop_structure [OF assms [unfolded get_trim_iters_def]]
  have tk: "take 1 snaps = [initial_snapshot C es]" and le: "1 \<le> length snaps"
    and st: "\<forall>k. 1 \<le> k \<and> k < length snaps
               \<longrightarrow> trim_iteration C tol (snaps ! (k - 1)) = Inr (snaps ! k)"
    by simp_all
  from le have ne: "snaps \<noteq> []" by auto
  then have "snaps ! 0 = initial_snapshot C es"
    using tk by (cases snaps) simp_all
  with ne st show ?thesis by (simp add: Suc_le_eq)
qed

text \<open>
  Claim C1. In every snapshot after the first that \<open>__get_trim_iters\<close> returns, the
  labels are a run of outliers, then a run of inliers, then a run of outliers: every
  outlier lies in a prefix or in a suffix of the label array, and no outlier lies between
  two inliers.
\<close>

theorem trim_snapshot_outliers_at_ends:
  assumes run: "get_trim_iters C es tol mt mi = Inr snaps" and i: "0 < i" "i < length snaps"
  shows "(\<exists>p m q. map cluster (snaps ! i)
            = replicate p Outlier @ replicate m Inlier @ replicate q Outlier)
       \<and> (\<forall>a b c. a < b \<and> b < c \<and> c < length (snaps ! i)
              \<and> cluster (snaps ! i ! a) = Inlier \<and> cluster (snaps ! i ! c) = Inlier
            \<longrightarrow> cluster (snaps ! i ! b) = Inlier)"
proof -
  have "trim_iteration C tol (snaps ! (i - 1)) = Inr (snaps ! i)"
    using get_trim_iters_structure [OF run] i by simp
  from trim_iteration_shape [OF this] obtain p m q where
    d: "map cluster (snaps ! i) = replicate p Outlier @ replicate m Inlier @ replicate q Outlier"
    by blast
  then show ?thesis using contiguous_run_nth [OF d] by blast
qed

lemma demo_run:
  "get_trim_iters demo [1, 2, 3, 4] (1 / 10) (1 / 2) 7
     = Inr (projr (get_trim_iters demo [1, 2, 3, 4] (1 / 10) (1 / 2) 7))"
  by code_simp

lemma demo_clusters:
  "map (map cluster) (projr (get_trim_iters demo [1, 2, 3, 4] (1 / 10) (1 / 2) 7))
     = [[Inlier, Inlier, Inlier, Inlier], [Outlier, Inlier, Inlier, Inlier],
        [Outlier, Inlier, Inlier], [Outlier, Inlier]]"
  by code_simp

theorem trim_snapshot_outliers_at_ends_witness:
  "\<exists>snaps. get_trim_iters demo [1, 2, 3, 4] (1 / 10) (1 / 2) 7 = Inr snaps
      \<and> map cluster (snaps ! 1) = [Outlier, Inlier, Inlier, Inlier]
      \<and> cluster (snaps ! 1 ! 2) = Inlier"
proof -
  define snaps where "snaps = projr (get_trim_iters demo [1, 2, 3, 4] (1 / 10) (1 / 2) 7)"
  have run: "get_trim_iters demo [1, 2, 3, 4] (1 / 10) (1 / 2) 7 = Inr snaps"
    unfolding snaps_def by (rule demo_run)
  have cl: "map (map cluster) snaps
     = [[Inlier, Inlier, Inlier, Inlier], [Outlier, Inlier, Inlier, Inlier],
        [Outlier, Inlier, Inlier], [Outlier, Inlier]]"
    unfolding snaps_def by (rule demo_clusters)
  have len: "length snaps = 4"
    using arg_cong [OF cl, of length] by simp
  have s1: "map cluster (snaps ! 1) = [Outlier, Inlier, Inlier, Inlier]"
    using arg_cong [OF cl, of "\<lambda>l. l ! 1"] len by simp
  have l1: "length (snaps ! 1) = 4" using arg_cong [OF s1, of length] by simp
  have c1: "cluster (snaps ! 1 ! 1) = Inlier"
    using arg_cong [OF s1, of "\<lambda>l. l ! 1"] l1 by simp
  have c3: "cluster (snaps ! 1 ! 3) = Inlier"
    using arg_cong [OF s1, of "\<lambda>l. l ! 3"] l1 by simp
  have i: "(0::nat) < 1" "1 < length snaps" using len by simp_all
  have "\<forall>a b c. a < b \<and> b < c \<and> c < length (snaps ! 1)
              \<and> cluster (snaps ! 1 ! a) = Inlier \<and> cluster (snaps ! 1 ! c) = Inlier
            \<longrightarrow> cluster (snaps ! 1 ! b) = Inlier"
    using trim_snapshot_outliers_at_ends [OF run i] by (rule conjunct2)
  then have "(1::nat) < 2 \<and> (2::nat) < 3 \<and> 3 < length (snaps ! 1)
              \<and> cluster (snaps ! 1 ! 1) = Inlier \<and> cluster (snaps ! 1 ! 3) = Inlier
            \<longrightarrow> cluster (snaps ! 1 ! 2) = Inlier"
    by blast
  then have "cluster (snaps ! 1 ! 2) = Inlier"
    using l1 c1 c3 by simp
  with run s1 show ?thesis by (intro exI [of _ snaps] conjI)
qed


lemma trim_loop_continues:
  assumes "trim_loop C tol mt mi n irs ir = Inr snaps"
    and "ir = int (length irs) - 1"
    and "length irs = 1 \<or> (\<exists>r \<in> set (last irs). cluster r = Outlier)"
  shows "\<forall>k. length irs - 1 \<le> k \<and> k < length snaps \<longrightarrow>
           (Suc k < length snaps \<longleftrightarrow>
              (k = 0 \<or> (\<exists>r \<in> set (snaps ! k). cluster r = Outlier))
              \<and> real (length (snaps ! k)) / real n > mt \<and> int k < mi)"
  using assms
proof (induction C tol mt mi n irs ir rule: trim_loop.induct)
  case (1 C tol mt mi n irs ir)
  from "1.prems"(1) have ne: "irs \<noteq> []" and n0: "n \<noteq> 0"
    by (auto simp: trim_loop.simps [of C tol mt mi n irs ir] split: if_splits)
  note str = trim_loop_structure [OF "1.prems"(1)]
  from str have tk: "take (length irs) snaps = irs" and le: "length irs \<le> length snaps"
    by simp_all
  have lastk: "snaps ! (length irs - 1) = last irs"
    using tk ne by (metis last_conv_nth nth_take diff_less length_greater_0_conv zero_less_one)
  have ir: "ir = int (length irs - 1)" using "1.prems"(2) ne
    by (cases irs) simp_all
  have pre: "length irs - 1 = 0 \<or> (\<exists>r \<in> set (last irs). cluster r = Outlier)"
    using "1.prems"(3) by auto
  show ?case
  proof (cases "real (length (last irs)) / real n > mt \<and> ir < mi")
    case False
    with "1.prems"(1) ne n0 have s: "snaps = irs"
      by (auto simp: trim_loop.simps [of C tol mt mi n irs ir])
    show ?thesis
    proof (intro allI impI)
      fix k assume "length irs - 1 \<le> k \<and> k < length snaps"
      then have k: "k = length irs - 1" using s by auto
      have "\<not> Suc k < length snaps" using k s by simp
      moreover have "\<not> (real (length (snaps ! k)) / real n > mt \<and> int k < mi)"
        using False lastk ir k by simp
      ultimately show "Suc k < length snaps \<longleftrightarrow>
              (k = 0 \<or> (\<exists>r \<in> set (snaps ! k). cluster r = Outlier))
              \<and> real (length (snaps ! k)) / real n > mt \<and> int k < mi"
        by blast
    qed
  next
    case True
    then obtain df where ti: "trim_iteration C tol (last irs) = Inr df"
      using "1.prems"(1) ne n0
      by (auto simp: trim_loop.simps [of C tol mt mi n irs ir] split: sum.splits)
    have cur: "(length irs - 1 = 0 \<or> (\<exists>r \<in> set (snaps ! (length irs - 1)). cluster r = Outlier))
              \<and> real (length (snaps ! (length irs - 1))) / real n > mt
              \<and> int (length irs - 1) < mi"
      using True pre lastk ir by simp
    show ?thesis
    proof (cases "list_all (\<lambda>r. cluster r = Inlier) df")
      case all: True
      with "1.prems"(1) ne n0 True ti have s: "snaps = irs @ [df]"
        by (auto simp: trim_loop.simps [of C tol mt mi n irs ir])
      show ?thesis
      proof (intro allI impI)
        fix k assume a: "length irs - 1 \<le> k \<and> k < length snaps"
        then consider "k = length irs - 1" | "k = length irs" using s by fastforce
        then show "Suc k < length snaps \<longleftrightarrow>
              (k = 0 \<or> (\<exists>r \<in> set (snaps ! k). cluster r = Outlier))
              \<and> real (length (snaps ! k)) / real n > mt \<and> int k < mi"
        proof cases
          case 1
          have "Suc k < length snaps" using 1 s ne by (cases irs) simp_all
          then show ?thesis using cur 1 by simp
        next
          case 2
          have "\<not> Suc k < length snaps" using 2 s by simp
          moreover have "k \<noteq> 0" using 2 ne by simp
          moreover have "snaps ! k = df" using 2 s by simp
          moreover have "\<not> (\<exists>r \<in> set df. cluster r = Outlier)"
            using all by (auto simp: list_all_iff)
          ultimately show ?thesis by simp
        qed
      qed
    next
      case notall: False
      with "1.prems"(1) ne n0 True ti
      have rec: "trim_loop C tol mt mi n (irs @ [df]) (ir + 1) = Inr snaps"
        by (auto simp: trim_loop.simps [of C tol mt mi n irs ir])
      have out: "\<exists>r \<in> set (last (irs @ [df])). cluster r = Outlier"
        using notall by (auto simp: list_all_iff) (metis label.exhaust)
      have ir': "ir + 1 = int (length (irs @ [df])) - 1" using "1.prems"(2) by simp
      from "1.IH" [OF ne n0 True ti notall rec ir'] out
      have IH: "\<forall>k. length irs \<le> k \<and> k < length snaps \<longrightarrow>
           (Suc k < length snaps \<longleftrightarrow>
              (k = 0 \<or> (\<exists>r \<in> set (snaps ! k). cluster r = Outlier))
              \<and> real (length (snaps ! k)) / real n > mt \<and> int k < mi)"
        by simp
      have le': "length irs < length snaps"
        using trim_loop_structure [OF rec] by simp
      show ?thesis
      proof (intro allI impI)
        fix k assume a: "length irs - 1 \<le> k \<and> k < length snaps"
        show "Suc k < length snaps \<longleftrightarrow>
              (k = 0 \<or> (\<exists>r \<in> set (snaps ! k). cluster r = Outlier))
              \<and> real (length (snaps ! k)) / real n > mt \<and> int k < mi"
        proof (cases "k = length irs - 1")
          case True
          have "Suc k < length snaps" using True le' ne by (cases irs) simp_all
          then show ?thesis using cur True by simp
        next
          case False
          then have "length irs \<le> k" using a by auto
          then show ?thesis using IH a by blast
        qed
      qed
    qed
  qed
qed

lemma trim_loop_returns:
  assumes "irs \<noteq> []" and "n \<noteq> 0" and "\<exists>r \<in> set (last irs). cluster r = Inlier"
  shows "\<exists>snaps. trim_loop C tol mt mi n irs ir = Inr snaps
           \<and> length irs \<le> length snaps \<and> length snaps \<le> length irs + nat (mi - ir)"
  using assms
proof (induction C tol mt mi n irs ir rule: trim_loop.induct)
  case (1 C tol mt mi n irs ir)
  note ne = "1.prems"(1) and n0 = "1.prems"(2)
  show ?case
  proof (cases "real (length (last irs)) / real n > mt \<and> ir < mi")
    case False
    then have "trim_loop C tol mt mi n irs ir = Inr irs"
      using ne n0 by (auto simp: trim_loop.simps [of C tol mt mi n irs ir])
    then show ?thesis by simp
  next
    case True
    obtain df where ti: "trim_iteration C tol (last irs) = Inr df"
      using trim_iteration_total [OF "1.prems"(3)] by blast
    show ?thesis
    proof (cases "list_all (\<lambda>r. cluster r = Inlier) df")
      case all: True
      then have "trim_loop C tol mt mi n irs ir = Inr (irs @ [df])"
        using ne n0 True ti by (simp add: trim_loop.simps [of C tol mt mi n irs ir])
      moreover have "1 \<le> nat (mi - ir)" using True by linarith
      ultimately show ?thesis by simp
    next
      case notall: False
      then have eq: "trim_loop C tol mt mi n irs ir
                 = trim_loop C tol mt mi n (irs @ [df]) (ir + 1)"
        using ne n0 True ti by (simp add: trim_loop.simps [of C tol mt mi n irs ir])
      from trim_iteration_shape [OF ti] obtain p m q where
        d: "map cluster df = replicate p Outlier @ replicate m Inlier @ replicate q Outlier"
        and m: "0 < m" by blast
      have "Inlier \<in> set (map cluster df)" unfolding d using m by simp
      then have inl: "\<exists>r \<in> set (last (irs @ [df])). cluster r = Inlier" by force
      from "1.IH" [OF ne n0 True ti notall _ n0 inl]
      obtain snaps where r: "trim_loop C tol mt mi n (irs @ [df]) (ir + 1) = Inr snaps"
        and b: "length (irs @ [df]) \<le> length snaps"
               "length snaps \<le> length (irs @ [df]) + nat (mi - (ir + 1))"
        by auto
      have "length (irs @ [df]) + nat (mi - (ir + 1)) = length irs + nat (mi - ir)"
        using True by (simp add: nat_diff_distrib') linarith
      then show ?thesis using eq r b by simp
    qed
  qed
qed

lemma initial_snapshot_inliers:
  "map cluster (initial_snapshot C es) = replicate (length es) Inlier"
  "map eigs (initial_snapshot C es) = es"
  "length (initial_snapshot C es) = length es"
  by (auto simp: initial_snapshot_def Let_def intro: nth_equalityI)

text \<open>
  Claim C3, as stated, fails: with four eigenvalues and \<open>max_trim = 1/2\<close>, the third
  snapshot has two inliers among its three rows, so the condition of the specification
  does not hold after two iterations, and yet a third iteration runs. The loop tests the
  number of rows of the last snapshot, not the number of its inliers.
\<close>

theorem trim_loop_condition_counterexample:
  "map (map cluster) (projr (get_trim_iters demo [1, 2, 3, 4] (1 / 10) (1 / 2) 7))
     = [[Inlier, Inlier, Inlier, Inlier], [Outlier, Inlier, Inlier, Inlier],
        [Outlier, Inlier, Inlier], [Outlier, Inlier]]
   \<and> \<not> spec_loop_condition (1 / 2) 7 (length [1, 2, 3, 4 :: real])
         (projr (get_trim_iters demo [1, 2, 3, 4] (1 / 10) (1 / 2) 7) ! 2) 2"
  by code_simp

text \<open>
  Claim C3, amended. After \<open>k\<close> iterations the loop runs another iteration exactly
  when \<open>k = 0\<close> or the last snapshot has a point labelled outlier (otherwise the loop has
  left through \<open>break\<close>), the number of rows of the last snapshot divided by the number
  of eigenvalues exceeds \<open>max_trim\<close>, and \<open>k < max_iters\<close>.
\<close>

theorem trim_loop_runs_again_iff:
  assumes "get_trim_iters C es tol mt mi = Inr snaps" and "k < length snaps"
  shows "Suc k < length snaps \<longleftrightarrow>
           (k = 0 \<or> Outlier \<in> set (map cluster (snaps ! k)))
           \<and> real (length (snaps ! k)) / real (length es) > mt \<and> int k < mi"
proof -
  have "\<forall>k. length [initial_snapshot C es] - 1 \<le> k \<and> k < length snaps \<longrightarrow>
           (Suc k < length snaps \<longleftrightarrow>
              (k = 0 \<or> (\<exists>r \<in> set (snaps ! k). cluster r = Outlier))
              \<and> real (length (snaps ! k)) / real (length es) > mt \<and> int k < mi)"
    by (rule trim_loop_continues [OF assms(1) [unfolded get_trim_iters_def]]) simp_all
  then have "Suc k < length snaps \<longleftrightarrow>
              (k = 0 \<or> (\<exists>r \<in> set (snaps ! k). cluster r = Outlier))
              \<and> real (length (snaps ! k)) / real (length es) > mt \<and> int k < mi"
    using assms(2) by simp
  moreover have "(\<exists>r \<in> set (snaps ! k). cluster r = Outlier)
                  \<longleftrightarrow> Outlier \<in> set (map cluster (snaps ! k))"
    by force
  ultimately show ?thesis by simp
qed

theorem trim_loop_runs_again_iff_witness:
  "\<exists>snaps. get_trim_iters demo [1, 2, 3, 4] (1 / 10) (1 / 2) 7 = Inr snaps
      \<and> map cluster (snaps ! 2) = [Outlier, Inlier, Inlier]
      \<and> Suc 2 < length snaps \<and> \<not> Suc 3 < length snaps"
proof -
  define snaps where "snaps = projr (get_trim_iters demo [1, 2, 3, 4] (1 / 10) (1 / 2) 7)"
  have run: "get_trim_iters demo [1, 2, 3, 4] (1 / 10) (1 / 2) 7 = Inr snaps"
    unfolding snaps_def by (rule demo_run)
  have cl: "map (map cluster) snaps
     = [[Inlier, Inlier, Inlier, Inlier], [Outlier, Inlier, Inlier, Inlier],
        [Outlier, Inlier, Inlier], [Outlier, Inlier]]"
    unfolding snaps_def by (rule demo_clusters)
  have len: "length snaps = 4"
    using arg_cong [OF cl, of length] by simp
  have s2: "map cluster (snaps ! 2) = [Outlier, Inlier, Inlier]"
    using arg_cong [OF cl, of "\<lambda>l. l ! 2"] len by simp
  have s3: "map cluster (snaps ! 3) = [Outlier, Inlier]"
    using arg_cong [OF cl, of "\<lambda>l. l ! 3"] len by simp
  have l2: "length (snaps ! 2) = 3" using arg_cong [OF s2, of length] by simp
  have l3: "length (snaps ! 3) = 2" using arg_cong [OF s3, of length] by simp
  have a: "Suc 2 < length snaps"
    using trim_loop_runs_again_iff [OF run, of 2] len s2 l2 by simp
  have b: "\<not> Suc 3 < length snaps"
    using trim_loop_runs_again_iff [OF run, of 3] len s3 l3 by simp
  from run s2 a b show ?thesis by (intro exI [of _ snaps] conjI)
qed

text \<open>
  Claim C4, as stated, fails for the empty spectrum: the loop condition divides by the
  number of eigenvalues.
\<close>

theorem get_trim_iters_empty_counterexample:
  "get_trim_iters demo [] (1 / 10) (1 / 2) 7 = Inl ZeroDivisionError"
  by code_simp

lemma shape_ends:
  assumes d: "map cluster s = replicate p Outlier @ replicate m Inlier @ replicate q Outlier"
    and m: "0 < m" and o: "Outlier \<in> set (map cluster s)"
  shows "cluster (hd s) = Outlier \<or> cluster (last s) = Outlier"
proof -
  have ne: "s \<noteq> []" using o by auto
  have h: "cluster (hd s) = hd (map cluster s)" and l: "cluster (last s) = last (map cluster s)"
    using ne by (simp_all add: hd_map last_map)
  have "0 < p \<or> 0 < q" using o unfolding d by auto
  then show ?thesis
  proof
    assume "0 < p"
    then show ?thesis unfolding h d by (cases p) simp_all
  next
    assume "0 < q"
    then show ?thesis unfolding l d by (cases q) simp_all
  qed
qed

lemma get_trim_iters_total:
  assumes "es \<noteq> []"
  shows "\<exists>snaps. get_trim_iters C es tol mt mi = Inr snaps
           \<and> 1 \<le> length snaps \<and> length snaps \<le> nat mi + 1"
proof -
  have inl: "\<exists>r \<in> set (last [initial_snapshot C es]). cluster r = Inlier"
  proof -
    have "Inlier \<in> set (map cluster (initial_snapshot C es))"
      using assms by (simp add: initial_snapshot_inliers(1))
    then show ?thesis by force
  qed
  have n0: "length es \<noteq> 0" using assms by simp
  from trim_loop_returns [OF _ n0 inl, of C tol mt mi 0]
  show ?thesis by (auto simp: get_trim_iters_def)
qed

lemma both_ends_inlier_is_last:
  assumes run: "get_trim_iters C es tol mt mi = Inr snaps"
    and k: "0 < k" "k < length snaps"
    and ends: "cluster (hd (snaps ! k)) = Inlier" "cluster (last (snaps ! k)) = Inlier"
  shows "Suc k = length snaps"
proof (rule ccontr)
  assume "Suc k \<noteq> length snaps"
  then have more: "Suc k < length snaps" using k by simp
  have "\<forall>k. length [initial_snapshot C es] - 1 \<le> k \<and> k < length snaps \<longrightarrow>
         (Suc k < length snaps \<longleftrightarrow>
            (k = 0 \<or> (\<exists>r \<in> set (snaps ! k). cluster r = Outlier))
            \<and> real (length (snaps ! k)) / real (length es) > mt \<and> int k < mi)"
    by (rule trim_loop_continues [OF run [unfolded get_trim_iters_def]]) simp_all
  then have "Suc k < length snaps \<longleftrightarrow>
            (k = 0 \<or> (\<exists>r \<in> set (snaps ! k). cluster r = Outlier))
            \<and> real (length (snaps ! k)) / real (length es) > mt \<and> int k < mi"
    using k by simp
  with k more have "\<exists>r \<in> set (snaps ! k). cluster r = Outlier" by simp
  then have o: "Outlier \<in> set (map cluster (snaps ! k))" by force
  have "trim_iteration C tol (snaps ! (k - 1)) = Inr (snaps ! k)"
    using get_trim_iters_structure [OF run] k by simp
  from trim_iteration_shape [OF this] obtain p m q where
    "map cluster (snaps ! k) = replicate p Outlier @ replicate m Inlier @ replicate q Outlier"
    "0 < m" by blast
  from shape_ends [OF this o] ends show False by simp
qed

text \<open>
  Claim C4, amended. For every spectrum that is not empty, every detector and every
  \<open>tolerance\<close>, \<open>max_trim\<close> and \<open>max_iters\<close>, \<open>__get_trim_iters\<close> returns a list of at
  least one and at most \<open>max_iters + 1\<close> snapshots (one snapshot when \<open>max_iters\<close> is
  negative). A snapshot after the first whose two end points are both inliers, as the
  fallback leaves them, is the last one: the loop exits there.
\<close>

theorem get_trim_iters_returns:
  assumes "es \<noteq> []"
  shows "\<exists>snaps. get_trim_iters C es tol mt mi = Inr snaps
           \<and> 1 \<le> length snaps \<and> length snaps \<le> nat mi + 1
           \<and> (\<forall>k. 0 < k \<and> k < length snaps
                  \<and> cluster (hd (snaps ! k)) = Inlier \<and> cluster (last (snaps ! k)) = Inlier
                \<longrightarrow> Suc k = length snaps)"
proof -
  from get_trim_iters_total [OF assms, of C tol mt mi]
  obtain snaps where run: "get_trim_iters C es tol mt mi = Inr snaps"
    and b: "1 \<le> length snaps" "length snaps \<le> nat mi + 1"
    by blast
  from both_ends_inlier_is_last [OF run] run b show ?thesis by blast
qed

lemma flag_first_run:
  "get_trim_iters flag_first [1, 2] (1 / 10) (1 / 2) 7
     = Inr (projr (get_trim_iters flag_first [1, 2] (1 / 10) (1 / 2) 7))"
  by code_simp

lemma flag_first_clusters:
  "map (map cluster) (projr (get_trim_iters flag_first [1, 2] (1 / 10) (1 / 2) 7))
     = [[Inlier, Inlier], [Outlier, Inlier], [Inlier]]"
  by code_simp

theorem get_trim_iters_returns_witness:
  "[1, 2 :: real] \<noteq> []
   \<and> (\<exists>snaps. get_trim_iters flag_first [1, 2] (1 / 10) (1 / 2) 7 = Inr snaps
         \<and> 1 \<le> length snaps \<and> length snaps \<le> nat 7 + 1
         \<and> map cluster (snaps ! 2) = [Inlier] \<and> Suc 2 = length snaps)"
proof -
  have ne: "[1, 2 :: real] \<noteq> []" by simp
  from get_trim_iters_returns [OF ne, of flag_first "1 / 10" "1 / 2" 7]
  obtain snaps where run: "get_trim_iters flag_first [1, 2] (1 / 10) (1 / 2) 7 = Inr snaps"
    and b: "1 \<le> length snaps" "length snaps \<le> nat 7 + 1"
    and f: "\<forall>k. 0 < k \<and> k < length snaps
                  \<and> cluster (hd (snaps ! k)) = Inlier \<and> cluster (last (snaps ! k)) = Inlier
                \<longrightarrow> Suc k = length snaps"
    by blast
  have "snaps = projr (get_trim_iters flag_first [1, 2] (1 / 10) (1 / 2) 7)"
    using run by simp
  then have cl: "map (map cluster) snaps = [[Inlier, Inlier], [Outlier, Inlier], [Inlier]]"
    using flag_first_clusters by simp
  have len: "length snaps = 3" using arg_cong [OF cl, of length] by simp
  have s2: "map cluster (snaps ! 2) = [Inlier]"
    using arg_cong [OF cl, of "\<lambda>l. l ! 2"] len by simp
  then obtain r where r: "snaps ! 2 = [r]" "cluster r = Inlier" by auto
  from f have "0 < (2::nat) \<and> 2 < length snaps
                  \<and> cluster (hd (snaps ! 2)) = Inlier \<and> cluster (last (snaps ! 2)) = Inlier
                \<longrightarrow> Suc 2 = length snaps"
    by blast
  then have "Suc 2 = length snaps" using len r by simp
  with ne run b s2 show ?thesis by (intro conjI exI [of _ snaps])
qed


section \<open>Properties of the score\<close>

lemma spacings_eq:
  "map2 (-) (drop 1 xs) (butlast xs) = successive_differences xs"
  unfolding successive_differences_def
  by (intro nth_equalityI) (simp_all add: nth_butlast)

lemma evaluate_unfolding_eq:
  "evaluate_unfolding xs =
     (let ds = successive_differences xs
      in (if ds = [] then NaN else Num (mean_of ds),
          if length ds \<le> 1 then NaN else Num (sample_variance ds),
          if length ds \<le> 1 then NaN
          else Num (spec_score (mean_of ds) (sample_variance ds))))"
  unfolding evaluate_unfolding_def spacings_eq
  by (auto simp: Let_def np_mean_def np_var_def mean_of_def sample_variance_def spec_score_def
      EXPECTED_GOE_MEAN_def EXPECTED_GOE_VARIANCE_def of_nat_diff)

text \<open>
  The score in terms of the two constants, whatever their values (other than 0) are.
\<close>

lemma evaluate_unfolding_constants:
  assumes "3 \<le> length xs" and "EXPECTED_GOE_MEAN \<noteq> 0" and "EXPECTED_GOE_VARIANCE \<noteq> 0"
  shows "evaluate_unfolding xs =
     (Num (mean_of (successive_differences xs)),
      Num (sample_variance (successive_differences xs)),
      Num ((sample_variance (successive_differences xs) - EXPECTED_GOE_VARIANCE)
             / EXPECTED_GOE_VARIANCE
           + 0.05 * ((mean_of (successive_differences xs) - EXPECTED_GOE_MEAN)
                       / EXPECTED_GOE_MEAN)))"
proof -
  let ?ds = "successive_differences xs"
  have len: "length ?ds = length xs - 1" by (simp add: successive_differences_def)
  then have ne: "?ds \<noteq> []" and two: "\<not> length ?ds \<le> 1" using assms(1) by auto
  have m: "np_mean ?ds = Num (mean_of ?ds)" using ne by (simp add: np_mean_def mean_of_def)
  have v: "np_var ?ds 1 = Num (sample_variance ?ds)"
    using two by (simp add: np_var_def sample_variance_def mean_of_def Let_def of_nat_diff)
  show ?thesis
    unfolding evaluate_unfolding_def spacings_eq Let_def m v using assms(2,3) by simp
qed

text \<open>
  Claim C7. For a column of at least two values, \<open>__evaluate_unfolding\<close> returns the
  mean of the successive differences, their sample variance with one degree of freedom
  removed, and the score \<open>(var - 1) / 1 + 0.05 * (mean - 1) / 1\<close>; the score is 0 when
  the mean and the variance are both 1. With exactly two values there is one difference:
  its sample variance is the quotient 0/0, and the variance and the score are not
  numbers.
\<close>

theorem evaluate_unfolding_formula:
  assumes "2 \<le> length xs"
  shows "fst (evaluate_unfolding xs) = Num (mean_of (successive_differences xs))
       \<and> fst (snd (evaluate_unfolding xs))
           = (if length xs = 2 then NaN else Num (sample_variance (successive_differences xs)))
       \<and> snd (snd (evaluate_unfolding xs))
           = (if length xs = 2 then NaN
              else Num (spec_score (mean_of (successive_differences xs))
                          (sample_variance (successive_differences xs))))
       \<and> (fst (evaluate_unfolding xs) = Num 1 \<and> fst (snd (evaluate_unfolding xs)) = Num 1
            \<longrightarrow> snd (snd (evaluate_unfolding xs)) = Num 0)"
proof -
  let ?ds = "successive_differences xs"
  have len: "length ?ds = length xs - 1" by (simp add: successive_differences_def)
  have ne: "?ds \<noteq> []" using assms len by auto
  have one: "length ?ds \<le> 1 \<longleftrightarrow> length xs = 2" using assms len by auto
  show ?thesis
    unfolding evaluate_unfolding_eq Let_def using ne one
    by (auto simp: spec_score_def)
qed

theorem evaluate_unfolding_formula_witness:
  "2 \<le> length [0, 0, 1, 3 :: real]
   \<and> evaluate_unfolding [0, 0, 1, 3] = (Num 1, Num 1, Num 0)
   \<and> mean_of (successive_differences [0, 0, 1, 3]) = 1
   \<and> sample_variance (successive_differences [0, 0, 1, 3]) = 1"
proof -
  have l: "2 \<le> length [0, 0, 1, 3 :: real]" by simp
  have m: "mean_of (successive_differences [0, 0, 1, 3]) = 1"
    by (simp add: mean_of_def successive_differences_def upt_rec)
  have v: "sample_variance (successive_differences [0, 0, 1, 3]) = 1"
    by (simp add: sample_variance_def mean_of_def successive_differences_def upt_rec)
  from evaluate_unfolding_formula [OF l] m v
  have "fst (evaluate_unfolding [0, 0, 1, 3]) = Num 1"
       "fst (snd (evaluate_unfolding [0, 0, 1, 3])) = Num 1"
       "snd (snd (evaluate_unfolding [0, 0, 1, 3])) = Num 0"
    by auto
  then have "evaluate_unfolding [0, 0, 1, 3] = (Num 1, Num 1, Num 0)"
    by (cases "evaluate_unfolding [0, 0, 1, 3]") simp
  with l m v show ?thesis by simp
qed

section \<open>Properties of the report table and of the constructor\<close>

lemma row_assign_length: "row_assign row k v = Inr r \<Longrightarrow> length r = length row"
  by (auto simp: row_assign_def split: if_splits)

lemma row_assign_nth:
  "row_assign row k v = Inr r \<Longrightarrow> j \<noteq> k \<Longrightarrow> r ! j = row ! j"
  by (auto simp: row_assign_def split: if_splits)

lemma row_assign_same:
  "row_assign row k v = Inr r \<Longrightarrow> r ! k = v"
  by (auto simp: row_assign_def split: if_splits)

lemma store_scores_keeps:
  "store_scores row j cols = Inr r \<Longrightarrow> length r = length row \<and> (\<forall>k < 3. r ! k = row ! k)"
proof (induction row j cols rule: store_scores.induct)
  case (1 row j)
  then show ?case by simp
next
  case (2 row j col cols)
  obtain mean var score where ev: "evaluate_unfolding (snd col) = (mean, var, score)"
    by (cases "evaluate_unfolding (snd col)") auto
  from "2.prems" ev obtain r1 r2 r3 where
    a1: "row_assign row (3 * j + 3) mean = Inr r1" and
    a2: "row_assign r1 (3 * j + 4) var = Inr r2" and
    a3: "row_assign r2 (3 * j + 5) score = Inr r3" and
    rest: "store_scores r3 (j + 1) cols = Inr r"
    by (auto split: sum.splits)
  have IH: "length r = length r3 \<and> (\<forall>k < 3. r ! k = r3 ! k)"
    using "2.IH" [OF refl ev [symmetric] refl a1 a2 a3 rest] .
  have "length r3 = length row"
    using row_assign_length [OF a1] row_assign_length [OF a2] row_assign_length [OF a3] by simp
  moreover have "\<forall>k < 3. r3 ! k = row ! k"
    using row_assign_nth [OF a1] row_assign_nth [OF a2] row_assign_nth [OF a3] by simp
  ultimately show ?case using IH by simp
qed

lemma unfold_trim_unfold:
  assumes ne_t: "trim \<noteq> []" and ne_es: "es \<noteq> []"
  shows "unfold_trim C es row trim =
      (case row_assign row 0 (Num (np_round (100 * (1 - real (length trim) / real (length es))) 3)) of Inl e \<Rightarrow> Inl e | Inr r0 \<Rightarrow>
        (case row_assign r0 1 (Num (100 * real_of_int (find_first es (hd (map eigs trim)))
                             / real (length es))) of Inl e \<Rightarrow> Inl e | Inr r1 \<Rightarrow>
          (case row_assign r1 2 (Num (100 * real_of_int (int (length es) - 1
                               - find_last es (last (map eigs trim))) / real (length es))) of Inl e \<Rightarrow> Inl e | Inr r2 \<Rightarrow>
            (case store_scores r2 0 (fit_all C (map eigs trim)) of Inl e \<Rightarrow> Inl e
             | Inr r \<Rightarrow> Inr (r, fit_all C (map eigs trim))))))"
proof -
  have a: "py_getitem (map eigs trim) 0 = Inr (hd (map eigs trim))"
    using ne_t by (simp add: py_getitem_first)
  have b: "py_getitem (map eigs trim) (- 1) = Inr (last (map eigs trim))"
    using ne_t by (simp add: py_getitem_last)
  have c: "length es \<noteq> 0" using ne_es by simp
  show ?thesis
    unfolding unfold_trim_def Let_def a b sum.case if_not_P [OF c] length_map ..
qed


lemma unfold_trim_row:
  assumes "unfold_trim C es row trim = Inr (r, u)"
  shows "length r = length row
       \<and> (3 \<le> length row \<longrightarrow>
            r ! 0 = Num (np_round (100 * (1 - real (length trim) / real (length es))) 3))
       \<and> u = fit_all C (map eigs trim) \<and> trim \<noteq> [] \<and> es \<noteq> []"
proof -
  have ne_t: "trim \<noteq> []"
  proof
    assume "trim = []"
    then have "unfold_trim C es row trim = Inl IndexError"
      by (simp add: unfold_trim_def py_getitem_Nil)
    with assms show False by simp
  qed
  have ne_es: "es \<noteq> []"
  proof
    assume "es = []"
    then have "unfold_trim C es row trim = Inl ZeroDivisionError"
      using ne_t by (simp add: unfold_trim_def py_getitem_first py_getitem_last Let_def)
    with assms show False by simp
  qed
  define tp where "tp = Num (np_round (100 * (1 - real (length trim) / real (length es))) 3)"
  define lo where "lo = Num (100 * real_of_int (find_first es (hd (map eigs trim)))
                             / real (length es))"
  define hi where "hi = Num (100 * real_of_int (int (length es) - 1
                               - find_last es (last (map eigs trim))) / real (length es))"
  note eq = unfold_trim_unfold [OF ne_t ne_es, of C row, folded tp_def lo_def hi_def]
  obtain r0 where a0: "row_assign row 0 tp = Inr r0"
    using assms unfolding eq by (cases "row_assign row 0 tp") simp_all
  obtain r1 where a1': "row_assign r0 1 lo = Inr r1"
    using assms unfolding eq a0 sum.case by (cases "row_assign r0 1 lo") simp_all
  obtain r2 where a2': "row_assign r1 2 hi = Inr r2"
    using assms unfolding eq a0 a1' sum.case by (cases "row_assign r1 2 hi") simp_all
  have st: "store_scores r2 0 (fit_all C (map eigs trim)) = Inr r"
    and u: "u = fit_all C (map eigs trim)"
    using assms unfolding eq a0 a1' a2' sum.case
    by (cases "store_scores r2 0 (fit_all C (map eigs trim))"; simp)+
  note ne = ne_es ne_t
  have len: "length r = length row"
    using store_scores_keeps [OF st] row_assign_length [OF a0] row_assign_length [OF a1']
      row_assign_length [OF a2'] by simp
  have "r2 ! 0 = tp"
    using row_assign_same [OF a0] row_assign_nth [OF a1', of 0] row_assign_nth [OF a2', of 0]
    by simp
  then have "r ! 0 = tp"
    using store_scores_keeps [OF st] by simp
  with len u ne show ?thesis by (simp add: tp_def)
qed

lemma unfold_rows_shape:
  assumes "unfold_rows C es width i trims lu = Inr (rows, u)"
  shows "length rows = length trims \<and> (\<forall>row \<in> set rows. length row = width)
       \<and> (\<forall>k < length trims. 3 \<le> width \<longrightarrow>
            rows ! k ! 0 = Num (np_round (100 * (1 - real (length (trims ! k)) / real (length es))) 3))
       \<and> u = (if trims = [] then lu else Some (fit_all C (map eigs (last trims))))"
  using assms
proof (induction trims arbitrary: i lu rows u)
  case Nil
  then show ?case by simp
next
  case (Cons trim trims)
  from Cons.prems obtain row all_unfolds rows' where
    ut: "unfold_trim C es (map (np_empty C i) [0..<width]) trim = Inr (row, all_unfolds)"
    and rec: "unfold_rows C es width (i + 1) trims (Some all_unfolds) = Inr (rows', u)"
    and rows: "rows = row # rows'"
    by (auto split: sum.splits prod.splits)
  note r = unfold_trim_row [OF ut]
  note IH = Cons.IH [OF rec]
  have first: "length row = width" using r by simp
  have u': "u = Some (fit_all C (map eigs (last (trim # trims))))"
    using IH r by (cases trims) auto
  have nth0: "\<forall>k < length (trim # trims). 3 \<le> width \<longrightarrow>
      rows ! k ! 0 = Num (np_round (100 * (1 - real (length ((trim # trims) ! k)) / real (length es))) 3)"
  proof (intro allI impI)
    fix k assume k: "k < length (trim # trims)" and w: "3 \<le> width"
    show "rows ! k ! 0 = Num (np_round (100 * (1 - real (length ((trim # trims) ! k)) / real (length es))) 3)"
    proof (cases k)
      case 0
      then show ?thesis using r w rows by simp
    next
      case (Suc k')
      then show ?thesis using IH k w rows by simp
    qed
  qed
  show ?case using IH first rows u' nth0 by simp
qed

lemma append_col_names_eq:
  "append_col_names acc names
     = acc @ concat (map (\<lambda>name. [name @ ''--mean_spacing'', name @ ''--var_spacing'',
                                   name @ ''--score'']) names)"
  by (induction names arbitrary: acc) simp_all

lemma np_round_zero: "np_round 0 d = 0"
  by (simp add: np_round_def round_half_even_def)

lemma unfold_across_trims_parts:
  assumes "unfold_across_trims C es trims = Inr (report, unfolds)"
  shows "\<exists>lu. unfold_rows C es (length (fit_all_dry_run C) * 3 + 3) 0 trims None
                = Inr (data report, lu)"
    and "columns report = [''trim_percent'', ''trim_low'', ''trim_high'']
            @ concat (map (\<lambda>name. [name @ ''--mean_spacing'', name @ ''--var_spacing'',
                                    name @ ''--score'']) (fit_all_dry_run C))"
proof -
  let ?w = "length (fit_all_dry_run C) * 3 + 3"
  from assms obtain arr lu where
    ur: "unfold_rows C es ?w 0 trims None = Inr (arr, lu)"
    and rep: "report = \<lparr>columns = append_col_names [''trim_percent'', ''trim_low'', ''trim_high'']
                           (fit_all_dry_run C), data = arr\<rparr>"
    by (auto simp: unfold_across_trims_def Let_def split: sum.splits option.splits)
  show "\<exists>lu. unfold_rows C es ?w 0 trims None = Inr (data report, lu)"
    using ur rep by simp
  show "columns report = [''trim_percent'', ''trim_low'', ''trim_high'']
            @ concat (map (\<lambda>name. [name @ ''--mean_spacing'', name @ ''--var_spacing'',
                                    name @ ''--score'']) (fit_all_dry_run C))"
    unfolding rep by (simp add: append_col_names_eq)
qed

text \<open>
  Claim C8. The report table that \<open>__unfold_across_trims\<close> produces has one row for
  every trim snapshot and \<open>3 + 3 * n\<close> columns for \<open>n\<close> smoothing configurations:
  \<open>trim_percent\<close>, \<open>trim_low\<close>, \<open>trim_high\<close>, and then for every configuration name
  its \<open>--mean_spacing\<close>, \<open>--var_spacing\<close> and \<open>--score\<close> columns, in this order.
\<close>

theorem unfold_across_trims_shape:
  assumes "unfold_across_trims C es trims = Inr (report, unfolds)"
  shows "length (data report) = length trims
       \<and> (\<forall>row \<in> set (data report). length row = 3 + 3 * length (fit_all_dry_run C))
       \<and> length (columns report) = 3 + 3 * length (fit_all_dry_run C)
       \<and> columns report = [''trim_percent'', ''trim_low'', ''trim_high'']
            @ concat (map (\<lambda>name. [name @ ''--mean_spacing'', name @ ''--var_spacing'',
                                    name @ ''--score'']) (fit_all_dry_run C))"
proof -
  note cols = unfold_across_trims_parts(2) [OF assms]
  from unfold_across_trims_parts(1) [OF assms] obtain lu where
    ur: "unfold_rows C es (length (fit_all_dry_run C) * 3 + 3) 0 trims None
           = Inr (data report, lu)"
    by blast
  have "length (columns report) = 3 + 3 * length (fit_all_dry_run C)"
    unfolding cols by (simp add: length_concat o_def sum_list_triv)
  moreover have "length (data report) = length trims"
    and "\<forall>row \<in> set (data report). length row = 3 + 3 * length (fit_all_dry_run C)"
    using unfold_rows_shape [OF ur] by (simp_all add: mult.commute)
  ultimately show ?thesis using cols by blast
qed

lemma demo_report:
  "unfold_across_trims demo [1, 2, 3, 4]
      (projr (get_trim_iters demo [1, 2, 3, 4] (1 / 10) (1 / 2) 7))
     = Inr (projr (unfold_across_trims demo [1, 2, 3, 4]
                     (projr (get_trim_iters demo [1, 2, 3, 4] (1 / 10) (1 / 2) 7))))"
  by code_simp

lemma demo_init:
  "TrimReport_init demo [4, 2, 1, 3] (1 / 2) 7 (1 / 10)
     = Inr (projr (TrimReport_init demo [4, 2, 1, 3] (1 / 2) 7 (1 / 10)))"
  by code_simp

theorem unfold_across_trims_shape_witness:
  "\<exists>report unfolds.
      unfold_across_trims demo [1, 2, 3, 4]
        (projr (get_trim_iters demo [1, 2, 3, 4] (1 / 10) (1 / 2) 7)) = Inr (report, unfolds)
      \<and> length (data report) = 4
      \<and> length (data report ! 3) = 9
      \<and> columns report = [''trim_percent'', ''trim_low'', ''trim_high'',
           ''poly_3--mean_spacing'', ''poly_3--var_spacing'', ''poly_3--score'',
           ''gompertz--mean_spacing'', ''gompertz--var_spacing'', ''gompertz--score'']"
proof -
  define trims where "trims = projr (get_trim_iters demo [1, 2, 3, 4] (1 / 10) (1 / 2) 7)"
  define res where "res = projr (unfold_across_trims demo [1, 2, 3, 4] trims)"
  have run: "unfold_across_trims demo [1, 2, 3, 4] trims = Inr (fst res, snd res)"
    unfolding res_def trims_def using demo_report by simp
  have len: "length trims = 4"
    unfolding trims_def using arg_cong [OF demo_clusters, of length] by simp
  have names: "fit_all_dry_run demo = [''poly_3'', ''gompertz'']"
    by (simp add: demo_def)
  note sh = unfold_across_trims_shape [OF run]
  have a: "length (data (fst res)) = 4" using sh len by simp
  have "data (fst res) ! 3 \<in> set (data (fst res))" using a by simp
  then have b: "length (data (fst res) ! 3) = 9" using sh names by simp
  have c: "columns (fst res) = [''trim_percent'', ''trim_low'', ''trim_high'',
           ''poly_3--mean_spacing'', ''poly_3--var_spacing'', ''poly_3--score'',
           ''gompertz--mean_spacing'', ''gompertz--var_spacing'', ''gompertz--score'']"
    using sh names by simp
  from run a b c show ?thesis
    unfolding trims_def by (intro exI [of _ "fst res"] exI [of _ "snd res"] conjI)
qed

lemma TrimReport_init_parts:
  assumes "TrimReport_init C xs mt mi tol = Inr tr"
  shows "\<exists>report u. get_trim_iters C (sort xs) tol mt mi = Inr (trim_steps tr)
           \<and> unfold_across_trims C (sort xs) (trim_steps tr) = Inr (report, u)
           \<and> unfold_info tr = report \<and> unfoldings tr = u \<and> untrimmed tr = sort xs"
  using assms
  by (auto simp: TrimReport_init_def Let_def split: sum.splits prod.splits)

lemma unfold_across_trims_first_entry:
  assumes "unfold_across_trims C es trims = Inr (report, unfolds)" and "k < length trims"
  shows "data report ! k ! 0
           = Num (np_round (100 * (1 - real (length (trims ! k)) / real (length es))) 3)"
proof -
  let ?w = "length (fit_all_dry_run C) * 3 + 3"
  from assms(1) obtain arr lu where
    ur: "unfold_rows C es ?w 0 trims None = Inr (arr, lu)" and rep: "data report = arr"
    by (auto simp: unfold_across_trims_def Let_def split: sum.splits option.splits)
  show ?thesis using unfold_rows_shape [OF ur] assms(2) rep by simp
qed

text \<open>
  Claim C9. In every TrimReport that the constructor builds, snapshot 0 holds the whole
  (sorted) spectrum with every point labelled inlier, and row 0 of the report table has
  \<open>trim_percent\<close> equal to 0.
\<close>

theorem snapshot_zero_untrimmed:
  assumes "TrimReport_init C eigenvalues mt mi tol = Inr tr"
  shows "map eigs (trim_steps tr ! 0) = untrimmed tr
       \<and> untrimmed tr = sort eigenvalues
       \<and> map cluster (trim_steps tr ! 0) = replicate (length eigenvalues) Inlier
       \<and> columns (unfold_info tr) ! 0 = ''trim_percent''
       \<and> data (unfold_info tr) ! 0 ! 0 = Num 0"
proof -
  from TrimReport_init_parts [OF assms] obtain report u where
    run: "get_trim_iters C (sort eigenvalues) tol mt mi = Inr (trim_steps tr)"
    and rep: "unfold_across_trims C (sort eigenvalues) (trim_steps tr) = Inr (report, u)"
    and tr: "unfold_info tr = report" "untrimmed tr = sort eigenvalues"
    by blast
  note st = get_trim_iters_structure [OF run]
  have s0: "trim_steps tr ! 0 = initial_snapshot C (sort eigenvalues)"
    and ne: "trim_steps tr \<noteq> []" using st by simp_all
  have e: "map eigs (trim_steps tr ! 0) = sort eigenvalues"
    and c: "map cluster (trim_steps tr ! 0) = replicate (length eigenvalues) Inlier"
    and l: "length (trim_steps tr ! 0) = length eigenvalues"
    unfolding s0 by (simp_all add: initial_snapshot_inliers)
  have n0: "eigenvalues \<noteq> []"
  proof
    assume "eigenvalues = []"
    then have "get_trim_iters C (sort eigenvalues) tol mt mi = Inl ZeroDivisionError"
      by (simp add: get_trim_iters_def trim_loop.simps)
    with run show False by simp
  qed
  have "data report ! 0 ! 0
          = Num (np_round (100 * (1 - real (length (trim_steps tr ! 0))
                                      / real (length (sort eigenvalues)))) 3)"
    using unfold_across_trims_first_entry [OF rep, of 0] ne by simp
  then have d: "data report ! 0 ! 0 = Num 0"
    using l n0 by (simp add: np_round_zero)
  have "columns report ! 0 = ''trim_percent''"
    using unfold_across_trims_parts(2) [OF rep] by simp
  with e c d tr show ?thesis by simp
qed

theorem snapshot_zero_untrimmed_witness:
  "\<exists>tr. TrimReport_init demo [4, 2, 1, 3] (1 / 2) 7 (1 / 10) = Inr tr
     \<and> map eigs (trim_steps tr ! 0) = [1, 2, 3, 4]
     \<and> map cluster (trim_steps tr ! 0) = [Inlier, Inlier, Inlier, Inlier]
     \<and> data (unfold_info tr) ! 0 ! 0 = Num 0"
proof -
  define tr where "tr = projr (TrimReport_init demo [4, 2, 1, 3] (1 / 2) 7 (1 / 10))"
  have run: "TrimReport_init demo [4, 2, 1, 3] (1 / 2) 7 (1 / 10) = Inr tr"
    unfolding tr_def by (rule demo_init)
  from snapshot_zero_untrimmed [OF run]
  have "map eigs (trim_steps tr ! 0) = [1, 2, 3, 4]"
    "map cluster (trim_steps tr ! 0) = [Inlier, Inlier, Inlier, Inlier]"
    "data (unfold_info tr) ! 0 ! 0 = Num 0"
    by (simp_all add: numeral_eq_Suc)
  with run show ?thesis by (intro exI [of _ tr] conjI)
qed

text \<open>
  Claim C10. The constructor sorts its input before anything else: two inputs that are
  permutations of each other give the same result (snapshots, report table, unfoldings
  and \<open>untrimmed\<close>), and \<open>untrimmed\<close> is the input sorted ascending.
\<close>

theorem TrimReport_init_permutation:
  assumes "mset xs = mset ys"
  shows "TrimReport_init C xs mt mi tol = TrimReport_init C ys mt mi tol
       \<and> (\<forall>tr. TrimReport_init C xs mt mi tol = Inr tr
             \<longrightarrow> untrimmed tr = sort xs \<and> sorted (untrimmed tr)
                 \<and> mset (untrimmed tr) = mset xs)"
proof -
  have "sort xs = sort ys"
    using assms by (intro properties_for_sort) simp_all
  then have "TrimReport_init C xs mt mi tol = TrimReport_init C ys mt mi tol"
    by (simp add: TrimReport_init_def)
  moreover have "\<And>tr. TrimReport_init C xs mt mi tol = Inr tr
        \<Longrightarrow> untrimmed tr = sort xs \<and> sorted (untrimmed tr) \<and> mset (untrimmed tr) = mset xs"
    using TrimReport_init_parts by fastforce
  ultimately show ?thesis by blast
qed

theorem TrimReport_init_permutation_witness:
  "mset [4, 2, 1, 3 :: real] = mset [1, 2, 3, 4]
   \<and> TrimReport_init demo [4, 2, 1, 3] (1 / 2) 7 (1 / 10)
       = TrimReport_init demo [1, 2, 3, 4] (1 / 2) 7 (1 / 10)
   \<and> untrimmed (projr (TrimReport_init demo [4, 2, 1, 3] (1 / 2) 7 (1 / 10))) = [1, 2, 3, 4]"
proof -
  have m: "mset [4, 2, 1, 3 :: real] = mset [1, 2, 3, 4]" by simp
  note t = TrimReport_init_permutation [OF m, of demo "1 / 2" 7 "1 / 10"]
  from t have a: "TrimReport_init demo [4, 2, 1, 3] (1 / 2) 7 (1 / 10)
       = TrimReport_init demo [1, 2, 3, 4] (1 / 2) 7 (1 / 10)" by (rule conjunct1)
  from t demo_init
  have "untrimmed (projr (TrimReport_init demo [4, 2, 1, 3] (1 / 2) 7 (1 / 10)))
          = sort [4, 2, 1, 3]"
    by blast
  then have b: "untrimmed (projr (TrimReport_init demo [4, 2, 1, 3] (1 / 2) 7 (1 / 10)))
                 = [1, 2, 3, 4]"
    by simp
  from m a b show ?thesis by (intro conjI)
qed

lemma row_assign_returns: "k < length row \<Longrightarrow> row_assign row k v = Inr (row[k := v])"
  by (simp add: row_assign_def)

lemma store_scores_returns:
  "j + length cols \<le> m \<Longrightarrow> length row = 3 * m + 3 \<Longrightarrow> \<exists>r. store_scores row j cols = Inr r"
proof (induction cols arbitrary: row j)
  case Nil
  then show ?case by simp
next
  case (Cons col cols)
  obtain mean var score where ev: "evaluate_unfolding (snd col) = (mean, var, score)"
    by (cases "evaluate_unfolding (snd col)") auto
  define r3 where "r3 = row[3 * j + 3 := mean, 3 * j + 4 := var, 3 * j + 5 := score]"
  have j: "j < m" using Cons.prems by simp
  have "\<exists>r. store_scores r3 (j + 1) cols = Inr r"
    using Cons.prems by (intro Cons.IH) (simp_all add: r3_def)
  moreover have "store_scores row j (col # cols) = store_scores r3 (j + 1) cols"
    using j Cons.prems(2) ev by (simp add: row_assign_returns r3_def)
  ultimately show ?case by simp
qed

lemma unfold_trim_returns:
  assumes "trim \<noteq> []" and "es \<noteq> []" and "length row = 3 * m + 3"
    and "length (fit_all C (map eigs trim)) \<le> m"
  shows "\<exists>r. unfold_trim C es row trim = Inr (r, fit_all C (map eigs trim))"
proof -
  define tp where "tp = Num (np_round (100 * (1 - real (length trim) / real (length es))) 3)"
  define lo where "lo = Num (100 * real_of_int (find_first es (hd (map eigs trim)))
                             / real (length es))"
  define hi where "hi = Num (100 * real_of_int (int (length es) - 1
                               - find_last es (last (map eigs trim))) / real (length es))"
  note eq = unfold_trim_unfold [OF assms(1,2), of C row, folded tp_def lo_def hi_def]
  define r2 where "r2 = row[0 := tp, 1 := lo, 2 := hi]"
  obtain r where st: "store_scores r2 0 (fit_all C (map eigs trim)) = Inr r"
    using store_scores_returns [of 0 "fit_all C (map eigs trim)" m r2] assms(3,4)
    by (auto simp: r2_def)
  have "unfold_trim C es row trim = Inr (r, fit_all C (map eigs trim))"
    unfolding eq using assms(3) st by (simp add: row_assign_returns r2_def)
  then show ?thesis by blast
qed

lemma unfold_rows_returns:
  assumes "\<forall>t \<in> set trims. t \<noteq> []" and "es \<noteq> []"
    and "\<forall>ys. length (fit_all C ys) \<le> m"
  shows "\<exists>rows u. unfold_rows C es (3 * m + 3) i trims lu = Inr (rows, u)"
  using assms(1)
proof (induction trims arbitrary: i lu)
  case Nil
  then show ?case by simp
next
  case (Cons trim trims)
  obtain r where ut: "unfold_trim C es (map (np_empty C i) [0..<3 * m + 3]) trim
                        = Inr (r, fit_all C (map eigs trim))"
    using unfold_trim_returns [of trim es "map (np_empty C i) [0..<3 * m + 3]" m C]
      Cons.prems assms(2,3) by auto
  obtain rows u where
    "unfold_rows C es (3 * m + 3) (i + 1) trims (Some (fit_all C (map eigs trim))) = Inr (rows, u)"
    using Cons.IH Cons.prems by fastforce
  then show ?case using ut by simp
qed

lemma unfold_across_trims_returns:
  assumes "trims \<noteq> []" and "\<forall>t \<in> set trims. t \<noteq> []" and "es \<noteq> []"
    and "\<forall>ys. length (fit_all C ys) \<le> length (fit_all_dry_run C)"
  shows "\<exists>report u. unfold_across_trims C es trims = Inr (report, u)"
proof -
  let ?m = "length (fit_all_dry_run C)"
  obtain rows u where ur: "unfold_rows C es (3 * ?m + 3) 0 trims None = Inr (rows, u)"
    using unfold_rows_returns [OF assms(2,3,4)] by blast
  have "u = Some (fit_all C (map eigs (last trims)))"
    using unfold_rows_shape [OF ur] assms(1) by simp
  then show ?thesis
    using ur by (simp add: unfold_across_trims_def Let_def mult.commute)
qed

lemma get_trim_iters_snapshots_nonempty:
  assumes "get_trim_iters C es tol mt mi = Inr snaps"
  shows "\<forall>s \<in> set snaps. s \<noteq> []"
proof -
  note st = get_trim_iters_structure [OF assms]
  have es: "es \<noteq> []"
  proof
    assume "es = []"
    then have "get_trim_iters C es tol mt mi = Inl ZeroDivisionError"
      by (simp add: get_trim_iters_def trim_loop.simps)
    with assms show False by simp
  qed
  have "\<And>k. k < length snaps \<Longrightarrow> snaps ! k \<noteq> []"
  proof -
    fix k assume k: "k < length snaps"
    show "snaps ! k \<noteq> []"
    proof (cases k)
      case 0
      then show ?thesis using st es initial_snapshot_inliers(3) [of C es] by auto
    next
      case (Suc k')
      then have "trim_iteration C tol (snaps ! (k - 1)) = Inr (snaps ! k)" using st k by force
      from trim_iteration_shape [OF this] show ?thesis by auto
    qed
  qed
  then show ?thesis by (auto simp: in_set_conv_nth)
qed

lemma TrimReport_init_returns:
  assumes "xs \<noteq> []" and "\<forall>ys. length (fit_all C ys) \<le> length (fit_all_dry_run C)"
  shows "\<exists>tr. TrimReport_init C xs mt mi tol = Inr tr"
proof -
  have ne: "sort xs \<noteq> []" using assms(1) by (metis length_0_conv length_sort)
  from get_trim_iters_total [OF ne, of C tol mt mi]
  obtain snaps where run: "get_trim_iters C (sort xs) tol mt mi = Inr snaps"
    and len: "1 \<le> length snaps" by blast
  have "snaps \<noteq> []" using len by auto
  from unfold_across_trims_returns [OF this get_trim_iters_snapshots_nonempty [OF run] ne assms(2)]
  obtain report u where "unfold_across_trims C (sort xs) snaps = Inr (report, u)" by blast
  then show ?thesis using run by (simp add: TrimReport_init_def)
qed


section \<open>Properties of the selection\<close>

lemma col_index_nth:
  "distinct cols \<Longrightarrow> j < length cols \<Longrightarrow> col_index cols (cols ! j) = j"
proof (induction cols arbitrary: j)
  case Nil
  then show ?case by simp
next
  case (Cons c cols)
  show ?case
  proof (cases j)
    case 0
    then show ?thesis by (simp add: col_index_def)
  next
    case (Suc j')
    then have "cols ! j' \<noteq> c" using Cons.prems by auto
    then show ?thesis using Suc Cons by (simp add: col_index_def)
  qed
qed

lemma score_cols_eq:
  "score_cols report = map (\<lambda>j. columns report ! j)
     (filter (\<lambda>j. sublist ''score'' (columns report ! j)) [0..<length (columns report)])"
  by (simp add: score_cols_def scores_def o_def)

lemma score_cols_filter:
  "score_cols report = filter (sublist ''score'') (columns report)"
proof -
  have "filter (sublist ''score'') (map (\<lambda>j. columns report ! j) [0..<length (columns report)])
          = filter (sublist ''score'') (columns report)"
    by (simp add: map_nth)
  then show ?thesis unfolding score_cols_eq by (simp add: filter_map o_def)
qed

lemma distinct_score_cols: "distinct (columns report) \<Longrightarrow> distinct (score_cols report)"
  by (simp add: score_cols_filter)

lemma length_scores: "length (scores report) = length (score_cols report)"
  by (simp add: score_cols_def)

lemma scores_nth:
  assumes "distinct (columns report)" and "i < length (scores report)"
  shows "snd (scores report ! i) = map abs (df_column report (score_cols report ! i))"
proof -
  let ?js = "filter (\<lambda>j. sublist ''score'' (columns report ! j)) [0..<length (columns report)]"
  have i: "i < length ?js" using assms(2) by (simp add: scores_def)
  then have "?js ! i \<in> set ?js" by (rule nth_mem)
  then have j: "?js ! i < length (columns report)" by simp
  have c: "score_cols report ! i = columns report ! (?js ! i)"
    unfolding score_cols_eq using i by simp
  have "snd (scores report ! i) = map (\<lambda>row. \<bar>row ! (?js ! i)\<bar>) (data report)"
    unfolding scores_def using i by simp
  also have "\<dots> = map abs (df_column report (score_cols report ! i))"
    unfolding c df_column_def using col_index_nth [OF assms(1) j] by (simp add: o_def)
  finally show ?thesis .
qed

lemma argsort_perm:
  "mset (argsort xs) = mset [0..<length xs]"
proof -
  let ?Z = "zip xs [0..<length xs]"
  have "mset (argsort xs) = image_mset snd (mset (sort_key fst ?Z))"
    unfolding argsort_def by (simp only: mset_map)
  also have "\<dots> = image_mset snd (mset ?Z)" by (simp only: mset_sort)
  also have "\<dots> = mset (map snd ?Z)" by (simp only: mset_map)
  also have "map snd ?Z = [0..<length xs]" by (simp add: map_snd_zip)
  finally show ?thesis .
qed

lemma argsort_basic:
  "length (argsort xs) = length xs" "distinct (argsort xs)" "set (argsort xs) = {0..<length xs}"
proof -
  show "length (argsort xs) = length xs"
    using mset_eq_length [OF argsort_perm [of xs]] by simp
  show "distinct (argsort xs)"
    using mset_eq_imp_distinct_iff [OF argsort_perm [of xs]] by simp
  show "set (argsort xs) = {0..<length xs}"
    using mset_eq_setD [OF argsort_perm [of xs]] by simp
qed

lemma argsort_sorted:
  assumes "a \<le> b" and "b < length xs"
  shows "xs ! (argsort xs ! a) \<le> xs ! (argsort xs ! b)"
proof -
  let ?zs = "sort_key fst (zip xs [0..<length xs])"
  have len: "length ?zs = length xs" by simp
  have srt: "sorted (map fst ?zs)" by (rule sorted_sort_key)
  have el: "\<And>k. k < length xs \<Longrightarrow> fst (?zs ! k) = xs ! snd (?zs ! k)"
  proof -
    fix k assume "k < length xs"
    then have "k < length ?zs" by simp
    then have "?zs ! k \<in> set ?zs" by (rule nth_mem)
    then have "?zs ! k \<in> set (zip xs [0..<length xs])" by (simp only: set_sort)
    then show "fst (?zs ! k) = xs ! snd (?zs ! k)"
      by (auto simp: in_set_zip)
  qed
  have "map fst ?zs ! a \<le> map fst ?zs ! b"
    using srt assms len by (intro sorted_nth_mono) simp_all
  then have "fst (?zs ! a) \<le> fst (?zs ! b)" using assms len by simp
  then show ?thesis
    using el [of a] el [of b] assms len by (simp add: argsort_def)
qed

lemma top_smoothers_lowest:
  assumes d: "distinct (columns report)"
  shows "lowest_three (\<lambda>c. stat (map abs (df_column report c))) (score_cols report)
           (top_smoothers stat report)"
proof -
  let ?cols = "score_cols report"
  let ?xs = "map (\<lambda>(c, xs). stat xs) (scores report)"
  let ?A = "argsort ?xs"
  let ?f = "\<lambda>c. stat (map abs (df_column report c))"
  have n: "length ?xs = length ?cols" by (simp add: length_scores)
  have T: "top_smoothers stat report = (\<lambda>j. ?cols ! j) ` set (take 3 ?A)"
    by (simp add: top_smoothers_def Let_def)
  have dc: "distinct ?cols" using d by (rule distinct_score_cols)
  have A: "length ?A = length ?cols" "distinct ?A" "set ?A = {0..<length ?cols}"
    using argsort_basic [of ?xs] n by simp_all
  have val: "\<And>i. i < length ?cols \<Longrightarrow> ?xs ! i = ?f (?cols ! i)"
  proof -
    fix i assume i: "i < length ?cols"
    then have "?xs ! i = stat (snd (scores report ! i))"
      by (simp add: length_scores case_prod_beta)
    then show "?xs ! i = ?f (?cols ! i)"
      using scores_nth [OF d, of i] i by (simp add: length_scores)
  qed
  have sub: "top_smoothers stat report \<subseteq> set ?cols"
  proof
    fix c assume "c \<in> top_smoothers stat report"
    then obtain j where "j \<in> set (take 3 ?A)" "c = ?cols ! j" unfolding T by blast
    moreover from this(1) have "j \<in> set ?A" by (rule in_set_takeD)
    ultimately show "c \<in> set ?cols" using A(3) by simp
  qed
  have inj: "inj_on (\<lambda>j. ?cols ! j) (set (take 3 ?A))"
  proof (rule inj_onI)
    fix i j assume "i \<in> set (take 3 ?A)" "j \<in> set (take 3 ?A)" "?cols ! i = ?cols ! j"
    moreover from calculation have "i \<in> set ?A" "j \<in> set ?A"
      by (auto dest: in_set_takeD)
    then have "i < length ?cols" "j < length ?cols" using A(3) by simp_all
    ultimately show "i = j" using dc by (simp add: nth_eq_iff_index_eq)
  qed
  have card: "card (top_smoothers stat report) = min 3 (length ?cols)"
  proof -
    have "card (top_smoothers stat report) = card (set (take 3 ?A))"
      unfolding T using inj by (rule card_image)
    also have "\<dots> = length (take 3 ?A)"
      using A(2) by (simp add: distinct_card)
    finally show ?thesis using A(1) by (simp add: min.commute)
  qed
  have low: "\<forall>c \<in> top_smoothers stat report. \<forall>c' \<in> set ?cols - top_smoothers stat report.
               ?f c \<le> ?f c'"
  proof (intro ballI)
    fix c c' assume c: "c \<in> top_smoothers stat report"
      and c': "c' \<in> set ?cols - top_smoothers stat report"
    from c obtain i where i: "i \<in> set (take 3 ?A)" "c = ?cols ! i" unfolding T by blast
    from c' obtain i' where i': "i' < length ?cols" "c' = ?cols ! i'"
      by (auto simp: in_set_conv_nth)
    have "i' \<notin> set (take 3 ?A)" using c' i'(2) unfolding T by blast
    moreover have "i' \<in> set ?A" using i'(1) A(3) by simp
    ultimately have "i' \<in> set (drop 3 ?A)"
      using set_append [of "take 3 ?A" "drop 3 ?A"] by simp
    then obtain b where b: "b < length (drop 3 ?A)" "drop 3 ?A ! b = i'"
      by (auto simp: in_set_conv_nth)
    from i(1) obtain a where a: "a < length (take 3 ?A)" "take 3 ?A ! a = i"
      by (auto simp: in_set_conv_nth)
    have a3: "a < 3" and ia: "?A ! a = i" using a by simp_all
    have ib: "?A ! (3 + b) = i'" and bl: "3 + b < length ?xs" using b A(1) n by simp_all
    have "?xs ! (?A ! a) \<le> ?xs ! (?A ! (3 + b))"
      using a3 bl by (intro argsort_sorted) simp_all
    moreover have "i < length ?cols"
      using in_set_takeD [OF i(1)] A(3) by simp
    ultimately show "?f c \<le> ?f c'"
      using val [of i] val [of i'] i(2) i'(1,2) ia ib by simp
  qed
  show ?thesis unfolding lowest_three_def using sub card low by blast
qed

lemma no_straddle:
  assumes "prefix ''--score'' (t @ ''--score'')"
  shows "t = [] \<or> prefix ''--score'' t"
proof -
  from assms consider "prefix ''--score'' t"
    | us where "''--score'' = t @ us" "prefix us ''--score''"
    unfolding prefix_append by blast
  then show ?thesis
  proof cases
    case 1
    then show ?thesis by simp
  next
    case 2
    then show ?thesis
      by (auto simp: Cons_eq_append_conv)
  qed
qed

lemma str_replace_suffix:
  assumes "\<not> sublist ''--score'' name"
  shows "str_replace ''--score'' [] (name @ ''--score'') = name"
  using assms
proof (induction name)
  case Nil
  show ?case
    by (simp add: str_replace.simps [of "''--score''" "[]" "''--score''"]
        str_replace.simps [of "''--score''" "[]" "[]"])
next
  case (Cons c cs)
  have np: "\<not> prefix ''--score'' (c # cs)"
    using Cons.prems by (meson prefix_imp_sublist)
  have ns: "\<not> sublist ''--score'' cs"
    using Cons.prems by (meson sublist_Cons_right)
  define s where "s = (c # cs) @ ''--score''"
  have a: "(''--score'' = ([] :: string)) = False" by simp
  have b: "(s = []) = False" by (simp add: s_def)
  have c: "prefix ''--score'' s = False"
    unfolding s_def using no_straddle [of "c # cs"] np by blast
  have "str_replace ''--score'' [] s = hd s # str_replace ''--score'' [] (tl s)"
    by (subst str_replace.simps) (simp only: a b c if_False)
  then have "str_replace ''--score'' [] ((c # cs) @ ''--score'')
               = c # str_replace ''--score'' [] (cs @ ''--score'')"
    by (simp add: s_def)
  then show ?case using Cons.IH [OF ns] by simp
qed

lemma consistent_size: 
  assumes "distinct (columns report)"
  shows "size (consistent report) \<le> 3"
proof -
  let ?T = "top_smoothers col_mean report"
  have l: "lowest_three (\<lambda>c. col_mean (map abs (df_column report c))) (score_cols report) ?T"
    using assms by (rule top_smoothers_lowest)
  have fin: "finite ?T" using l by (auto simp: lowest_three_def intro: finite_subset)
  have "card (?T \<inter> top_smoothers col_median report) \<le> card ?T"
    using fin by (intro card_mono) auto
  also have "\<dots> \<le> 3" using l by (simp add: lowest_three_def)
  finally show ?thesis by (simp add: consistent_def)
qed

lemma summarize_consistent:
  assumes "summarize_trim_unfoldings report unfolds = Inr (best, best_unfoldeds, cons)"
  shows "cons = consistent report"
  using assms by (auto simp: summarize_trim_unfoldings_def split: if_splits sum.splits)

text \<open>
  The statistics of pandas are the ones of the specification: entry \<open>k\<close> of the sorted
  column is the value of rank \<open>k\<close>, so \<open>col_median\<close> is the median stated by counting.
\<close>

lemma length_filter_sort:
  "length (filter P (sort xs)) = length (filter P xs)"
proof -
  have "mset (filter P (sort xs)) = mset (filter P xs)" by simp
  then show ?thesis by (rule mset_eq_length)
qed

lemma sort_nth_rank_value:
  assumes k: "k < length xs"
  shows "sort xs ! k = rank_value xs k"
proof -
  let ?s = "sort xs"
  let ?v = "?s ! k"
  have len: "length ?s = length xs" by simp
  have srt: "sorted ?s" by simp
  have cnt: "\<And>w. length (filter (\<lambda>x. x \<le> w) xs) = card {i. i < length ?s \<and> ?s ! i \<le> w}"
    using length_filter_sort [of "\<lambda>x. x \<le> w" xs for w]
    by (simp only: length_filter_conv_card)
  have mem: "?v \<in> set xs" using nth_mem [of k ?s] k by simp
  have "{0..k} \<subseteq> {i. i < length ?s \<and> ?s ! i \<le> ?v}"
    using k srt by (auto intro: sorted_nth_mono)
  then have "card {0..k} \<le> card {i. i < length ?s \<and> ?s ! i \<le> ?v}"
    by (intro card_mono) simp_all
  then have big: "k < length (filter (\<lambda>x. x \<le> ?v) xs)" unfolding cnt by simp
  have least: "?v \<le> w" if w: "k < length (filter (\<lambda>x. x \<le> w) xs)" for w
  proof (rule ccontr)
    assume "\<not> ?v \<le> w"
    then have lt: "w < ?v" by simp
    have "{i. i < length ?s \<and> ?s ! i \<le> w} \<subseteq> {0..<k}"
    proof
      fix i assume "i \<in> {i. i < length ?s \<and> ?s ! i \<le> w}"
      then have i: "i < length ?s" "?s ! i \<le> w" by simp_all
      have "i < k"
      proof (rule ccontr)
        assume "\<not> i < k"
        then have "k \<le> i" by simp
        then have "?v \<le> ?s ! i" using srt i(1) by (intro sorted_nth_mono) simp_all
        then show False using i(2) lt by simp
      qed
      then show "i \<in> {0..<k}" by simp
    qed
    then have "card {i. i < length ?s \<and> ?s ! i \<le> w} \<le> card {0..<k}"
      by (intro card_mono) simp_all
    then show False using w unfolding cnt by simp
  qed
  show ?thesis unfolding rank_value_def
  proof (rule Min_eqI [symmetric])
    show "finite (set (filter (\<lambda>v. k < length (filter (\<lambda>x. x \<le> v) xs)) xs))" by simp
    show "\<And>y. y \<in> set (filter (\<lambda>v. k < length (filter (\<lambda>x. x \<le> v) xs)) xs) \<Longrightarrow> ?v \<le> y"
      using least by simp
    show "?v \<in> set (filter (\<lambda>v. k < length (filter (\<lambda>x. x \<le> v) xs)) xs)"
      using mem big by simp
  qed
qed

lemma col_median_is_median_of:
  assumes "xs \<noteq> []"
  shows "col_median xs = median_of xs"
proof (cases "odd (length xs)")
  case True
  then have e: "(length xs - 1) div 2 = length xs div 2" by (auto elim!: oddE)
  have "length xs div 2 < length xs" using assms by simp
  then have "sort xs ! (length xs div 2) = rank_value xs (length xs div 2)"
    by (rule sort_nth_rank_value)
  then show ?thesis using True unfolding col_median_def median_of_def e Let_def by simp
next
  case False
  then have ev: "even (length xs)" by simp
  have pos: "0 < length xs" using assms by simp
  have e: "(length xs - 1) div 2 = length xs div 2 - 1" using ev pos by (auto elim!: evenE)
  have a: "length xs div 2 < length xs" and b: "length xs div 2 - 1 < length xs"
    using pos by arith+
  have "sort xs ! (length xs div 2) = rank_value xs (length xs div 2)"
    "sort xs ! (length xs div 2 - 1) = rank_value xs (length xs div 2 - 1)"
    using a b by (simp_all only: sort_nth_rank_value)
  then show ?thesis using False unfolding col_median_def median_of_def e Let_def by simp
qed

lemma col_mean_is_mean_of: "col_mean xs = mean_of xs"
  by (simp add: col_mean_def mean_of_def)

lemma lowest_three_cong:
  assumes "\<forall>c \<in> set cols. f c = g c" and "lowest_three f cols T"
  shows "lowest_three g cols T"
proof -
  have T: "T \<subseteq> set cols" using assms(2) by (simp add: lowest_three_def)
  have "g c \<le> g c'" if "c \<in> T" "c' \<in> set cols - T" for c c'
  proof -
    have "f c \<le> f c'" using assms(2) that by (simp add: lowest_three_def)
    moreover have "f c = g c" "f c' = g c'" using assms(1) T that by auto
    ultimately show ?thesis by simp
  qed
  then show ?thesis using assms(2) by (simp add: lowest_three_def)
qed

lemma score_column_rows:
  assumes "summarize_trim_unfoldings report unfolds = Inr (best, best_unfoldeds, cons)"
    and "c \<in> set (score_cols report)"
  shows "map abs (df_column report c) \<noteq> []"
proof -
  have "scores report \<noteq> []" using assms(2) by (auto simp: score_cols_def)
  then have "data report \<noteq> []"
    using assms(1) by (auto simp: summarize_trim_unfoldings_def split: if_splits)
  then show ?thesis by (simp add: df_column_def)
qed

text \<open>
  Claim C6. The list \<open>consistent\<close> consists of the labels that are both among three
  score columns with the least mean and among three score columns with the least median
  of the absolute scores over all trims, each with \<open>--score\<close> removed (for a label
  \<open>name--score\<close> whose name does not contain \<open>--score\<close> this leaves the name); it has at
  most three elements, all of them stripped labels of score columns of the report. The
  mean is \<open>mean_of\<close> and the median is \<open>median_of\<close>, the median stated by counting. The
  report table holds numbers only and its column labels are distinct.
\<close>

theorem consistent_is_intersection:
  assumes "summarize_trim_unfoldings report unfolds = Inr (best, best_unfoldeds, cons)"
    and "distinct (columns report)"
  shows "\<exists>top_mean top_median.
           lowest_three (\<lambda>c. mean_of (map abs (df_column report c))) (score_cols report) top_mean
         \<and> lowest_three (\<lambda>c. median_of (map abs (df_column report c))) (score_cols report)
              top_median
         \<and> cons = image_mset (str_replace ''--score'' []) (mset_set (top_mean \<inter> top_median))
         \<and> size cons \<le> 3
         \<and> set_mset cons \<subseteq> str_replace ''--score'' [] ` set (score_cols report)
         \<and> (\<forall>name. \<not> sublist ''--score'' name
               \<longrightarrow> str_replace ''--score'' [] (name @ ''--score'') = name)"
proof -
  let ?mean = "top_smoothers col_mean report" and ?median = "top_smoothers col_median report"
  have c: "cons = consistent report" using assms(1) by (rule summarize_consistent)
  have m1: "lowest_three (\<lambda>c. col_mean (map abs (df_column report c))) (score_cols report) ?mean"
    and m2: "lowest_three (\<lambda>c. col_median (map abs (df_column report c))) (score_cols report) ?median"
    using assms(2) by (rule top_smoothers_lowest)+
  have l1: "lowest_three (\<lambda>c. mean_of (map abs (df_column report c))) (score_cols report) ?mean"
    using m1 by (simp only: col_mean_is_mean_of)
  have "\<forall>c \<in> set (score_cols report).
          col_median (map abs (df_column report c)) = median_of (map abs (df_column report c))"
    using score_column_rows [OF assms(1)] by (intro ballI col_median_is_median_of)
  then have l2: "lowest_three (\<lambda>c. median_of (map abs (df_column report c))) (score_cols report)
                   ?median"
    using m2 by (rule lowest_three_cong)
  have fin: "finite (?mean \<inter> ?median)"
    using l1 by (auto simp: lowest_three_def intro: finite_subset)
  have sub: "?mean \<inter> ?median \<subseteq> set (score_cols report)"
    using l1 by (auto simp: lowest_three_def)
  have "set_mset cons = str_replace ''--score'' [] ` (?mean \<inter> ?median)"
    unfolding c consistent_def using fin by simp
  then have s: "set_mset cons \<subseteq> str_replace ''--score'' [] ` set (score_cols report)"
    using sub by blast
  have "cons = image_mset (str_replace ''--score'' []) (mset_set (?mean \<inter> ?median))"
    unfolding c by (simp add: consistent_def)
  moreover have "size cons \<le> 3" unfolding c using assms(2) by (rule consistent_size)
  ultimately show ?thesis using l1 l2 s str_replace_suffix by blast
qed

lemma consistent_as_list:
  "consistent report =
     mset (map (str_replace ''--score'' [])
       (filter (\<lambda>c. c \<in> top_smoothers col_median report)
          (remdups (map (\<lambda>j. score_cols report ! j)
             (take 3 (argsort (map (\<lambda>(c, xs). col_mean xs) (scores report))))))))"
proof -
  let ?xs = "map (\<lambda>j. score_cols report ! j)
               (take 3 (argsort (map (\<lambda>(c, xs). col_mean xs) (scores report))))"
  let ?B = "top_smoothers col_median report"
  have "top_smoothers col_mean report \<inter> ?B = set (filter (\<lambda>c. c \<in> ?B) (remdups ?xs))"
    by (auto simp: top_smoothers_def Let_def)
  moreover have "distinct (filter (\<lambda>c. c \<in> ?B) (remdups ?xs))" by simp
  ultimately have "mset_set (top_smoothers col_mean report \<inter> ?B)
                     = mset (filter (\<lambda>c. c \<in> ?B) (remdups ?xs))"
    by (simp only: mset_set_set)
  then show ?thesis by (simp add: consistent_def)
qed

lemma summarize_returns:
  assumes "data report \<noteq> []"
    and "select_columns unfolds (map (str_replace ''--score'' []) (best_smoother_cols report))
           = Inr bu"
    and "fill_best_smoothers report 0
           (zip (best_smoother_cols report) (best_smoother_rows report)) Map.empty = Inr best"
  shows "summarize_trim_unfoldings report unfolds = Inr (best, bu, consistent report)"
  using assms by (simp add: summarize_trim_unfoldings_def)

lemma demo_select:
  "\<not> isl (select_columns demo_unfolds
            (map (str_replace ''--score'' []) (best_smoother_cols demo_table)))"
  by code_simp

lemma demo_fill:
  "\<not> isl (fill_best_smoothers demo_table 0
            (zip (best_smoother_cols demo_table) (best_smoother_rows demo_table)) Map.empty)"
  by code_simp

lemma demo_summary_returns:
  "\<exists>best bu. summarize_trim_unfoldings demo_table demo_unfolds
      = Inr (best, bu, consistent demo_table)"
proof -
  obtain bu where a: "select_columns demo_unfolds
            (map (str_replace ''--score'' []) (best_smoother_cols demo_table)) = Inr bu"
    using demo_select
    by (cases "select_columns demo_unfolds
            (map (str_replace ''--score'' []) (best_smoother_cols demo_table))") auto
  obtain best where b: "fill_best_smoothers demo_table 0
            (zip (best_smoother_cols demo_table) (best_smoother_rows demo_table)) Map.empty
          = Inr best"
    using demo_fill
    by (cases "fill_best_smoothers demo_table 0
            (zip (best_smoother_cols demo_table) (best_smoother_rows demo_table)) Map.empty") auto
  have "data demo_table \<noteq> []" by (simp add: demo_table_def)
  from summarize_returns [OF this a b] show ?thesis by blast
qed

lemma demo_table_distinct: "distinct (columns demo_table)"
  by code_simp

lemma trims_select:
  "\<not> isl (select_columns trims_unfolds
            (map (str_replace ''--score'' []) (best_smoother_cols trims_table)))"
  by code_simp

lemma trims_fill:
  "\<not> isl (fill_best_smoothers trims_table 0
            (zip (best_smoother_cols trims_table) (best_smoother_rows trims_table)) Map.empty)"
  by code_simp

lemma trims_summary_returns:
  "\<exists>best bu. summarize_trim_unfoldings trims_table trims_unfolds
      = Inr (best, bu, consistent trims_table)"
proof -
  obtain bu where a: "select_columns trims_unfolds
            (map (str_replace ''--score'' []) (best_smoother_cols trims_table)) = Inr bu"
    using trims_select
    by (cases "select_columns trims_unfolds
            (map (str_replace ''--score'' []) (best_smoother_cols trims_table))") auto
  obtain best where b: "fill_best_smoothers trims_table 0
            (zip (best_smoother_cols trims_table) (best_smoother_rows trims_table)) Map.empty
          = Inr best"
    using trims_fill
    by (cases "fill_best_smoothers trims_table 0
            (zip (best_smoother_cols trims_table) (best_smoother_rows trims_table)) Map.empty") auto
  have "data trims_table \<noteq> []" by (simp add: trims_table_def)
  from summarize_returns [OF this a b] show ?thesis by blast
qed

lemma trims_table_distinct: "distinct (columns trims_table)"
  by code_simp

lemma trims_score_cols:
  "score_cols trims_table
     = [''a--score'', ''b--score'', ''c--score'', ''d--score'', ''e--score'']"
  by code_simp

lemma trims_medians:
  "map (\<lambda>c. median_of (map abs (df_column trims_table c))) (score_cols trims_table)
     = [20, 5, 19, 8, 2]"
  by code_simp

lemma trims_means:
  "map (\<lambda>c. mean_of (map abs (df_column trims_table c))) (score_cols trims_table)
     = [20, 28, 19, 8, 95 / 4]"
  by code_simp

lemma trims_top_median:
  "lowest_three (\<lambda>c. median_of (map abs (df_column trims_table c))) (score_cols trims_table)
     {''b--score'', ''d--score'', ''e--score''}"
  by code_simp

lemma trims_top_mean:
  "lowest_three (\<lambda>c. mean_of (map abs (df_column trims_table c))) (score_cols trims_table)
     {''a--score'', ''c--score'', ''d--score''}"
  by code_simp

lemma trims_consistent: "consistent trims_table = {#''d''#}"
proof -
  have "map (str_replace ''--score'' [])
       (filter (\<lambda>c. c \<in> top_smoothers col_median trims_table)
          (remdups (map (\<lambda>j. score_cols trims_table ! j)
             (take 3 (argsort (map (\<lambda>(c, xs). col_mean xs) (scores trims_table)))))))
        = [''d'']"
    by code_simp
  then show ?thesis unfolding consistent_as_list by simp
qed

theorem consistent_is_intersection_witness:
  "\<exists>best best_unfoldeds cons.
      summarize_trim_unfoldings trims_table trims_unfolds = Inr (best, best_unfoldeds, cons)
      \<and> distinct (columns trims_table)
      \<and> score_cols trims_table
            = [''a--score'', ''b--score'', ''c--score'', ''d--score'', ''e--score'']
      \<and> map (\<lambda>c. median_of (map abs (df_column trims_table c))) (score_cols trims_table)
            = [20, 5, 19, 8, 2]
      \<and> map (\<lambda>c. mean_of (map abs (df_column trims_table c))) (score_cols trims_table)
            = [20, 28, 19, 8, 95 / 4]
      \<and> cons = {#''d''#} \<and> size cons \<le> 3"
proof -
  obtain best bu cons where
    run: "summarize_trim_unfoldings trims_table trims_unfolds = Inr (best, bu, cons)"
    using trims_summary_returns by blast
  from consistent_is_intersection [OF run trims_table_distinct]
  have "size cons \<le> 3" by blast
  moreover have "cons = {#''d''#}"
    using summarize_consistent [OF run] trims_consistent by simp
  ultimately show ?thesis
    using run trims_table_distinct trims_score_cols trims_medians trims_means
    by (intro exI [of _ best] exI [of _ bu] exI [of _ cons] conjI)
qed

lemma dict_keys_distinct: "distinct (map fst ser) \<Longrightarrow> dict_keys ser = map fst ser"
proof -
  assume "distinct (map fst ser)"
  then have "remdups (rev (map fst ser)) = rev (map fst ser)"
    by (intro distinct_remdups_id) simp
  then show ?thesis unfolding dict_keys_def by (simp only: rev_rev_ident)
qed

lemma idxmin_attains:
  assumes "xs \<noteq> []"
  shows "idxmin xs < length xs \<and> xs ! idxmin xs = Min (set xs)"
proof -
  have "Min (set xs) \<in> set xs" using assms by (intro Min_in) simp_all
  then have "\<exists>x \<in> set xs. \<not> x \<noteq> Min (set xs)" by blast
  then have l: "idxmin xs < length xs"
    unfolding idxmin_def by (rule length_takeWhile_less)
  then have "\<not> xs ! idxmin xs \<noteq> Min (set xs)"
    unfolding idxmin_def by (rule nth_length_takeWhile)
  with l show ?thesis by simp
qed

lemma fill_best_smoothers_frame:
  "fill_best_smoothers report i pairs d = Inr d' \<Longrightarrow>
     (\<forall>j < i. d' (IntKey j) = d (IntKey j))
   \<and> (0 < i \<longrightarrow> d' (StrKey ''best'') = d (StrKey ''best''))
   \<and> (1 < i \<longrightarrow> d' (StrKey ''second'') = d (StrKey ''second''))
   \<and> (2 < i \<longrightarrow> d' (StrKey ''third'') = d (StrKey ''third''))"
proof (induction pairs arbitrary: i d)
  case Nil
  then show ?case by simp
next
  case (Cons p pairs)
  obtain col r where p: "p = (col, r)" by (cases p)
  from Cons.prems obtain entry where
    e: "df_row_of report (best_smoother_labels col) r = Inr entry"
    by (auto simp: p best_smoother_labels_def Let_def split: sum.splits)
  define b1 where "b1 = (if i = 0 then d(StrKey ''best'' \<mapsto> entry)
                        else if i = 1 then d(StrKey ''second'' \<mapsto> entry)
                        else if i = 2 then d(StrKey ''third'' \<mapsto> entry)
                        else d)"
  have rec: "fill_best_smoothers report (i + 1) pairs (b1(IntKey i \<mapsto> entry)) = Inr d'"
    using Cons.prems e unfolding p b1_def
    by (simp add: best_smoother_labels_def Let_def)
  note IH = Cons.IH [OF rec]
  show ?case using IH by (auto simp: b1_def)
qed

lemma fill_best_smoothers_lookup:
  "fill_best_smoothers report i pairs d = Inr d' \<Longrightarrow> k < length pairs \<Longrightarrow>
     \<exists>entry. df_row_of report (best_smoother_labels (fst (pairs ! k))) (snd (pairs ! k))
                = Inr entry
       \<and> d' (IntKey (i + k)) = Some entry
       \<and> (i + k = 0 \<longrightarrow> d' (StrKey ''best'') = Some entry)
       \<and> (i + k = 1 \<longrightarrow> d' (StrKey ''second'') = Some entry)
       \<and> (i + k = 2 \<longrightarrow> d' (StrKey ''third'') = Some entry)"
proof (induction pairs arbitrary: i d k)
  case Nil
  then show ?case by simp
next
  case (Cons p pairs)
  obtain col r where p: "p = (col, r)" by (cases p)
  from Cons.prems(1) obtain entry where
    e: "df_row_of report (best_smoother_labels col) r = Inr entry"
    by (auto simp: p best_smoother_labels_def Let_def split: sum.splits)
  define b1 where "b1 = (if i = 0 then d(StrKey ''best'' \<mapsto> entry)
                        else if i = 1 then d(StrKey ''second'' \<mapsto> entry)
                        else if i = 2 then d(StrKey ''third'' \<mapsto> entry)
                        else d)"
  have rec: "fill_best_smoothers report (i + 1) pairs (b1(IntKey i \<mapsto> entry)) = Inr d'"
    using Cons.prems(1) e unfolding p b1_def
    by (simp add: best_smoother_labels_def Let_def)
  show ?case
  proof (cases k)
    case 0
    note fr = fill_best_smoothers_frame [OF rec]
    have "d' (IntKey i) = Some entry" using fr by simp
    moreover have "i = 0 \<longrightarrow> d' (StrKey ''best'') = Some entry"
      using fr by (simp add: b1_def)
    moreover have "i = 1 \<longrightarrow> d' (StrKey ''second'') = Some entry"
      using fr by (simp add: b1_def)
    moreover have "i = 2 \<longrightarrow> d' (StrKey ''third'') = Some entry"
      using fr by (simp add: b1_def)
    ultimately show ?thesis using 0 e p by simp
  next
    case (Suc k')
    then have "k' < length pairs" using Cons.prems(2) by simp
    from Cons.IH [OF rec this] show ?thesis using Suc by simp
  qed
qed

lemma score_minima_fst:
  "map fst (map (\<lambda>(c, xs). (c, col_min (map abs xs))) (scores report)) = score_cols report"
  by (simp add: score_cols_def case_prod_beta o_def)

lemma score_minima_snd:
  assumes d: "distinct (columns report)"
    and p: "p \<in> set (map (\<lambda>(c, xs). (c, col_min (map abs xs))) (scores report))"
  shows "snd p = min_abs_score report (fst p)"
proof -
  from p obtain i where i: "i < length (scores report)"
    and pi: "p = (fst (scores report ! i), col_min (map abs (snd (scores report ! i))))"
    by (auto simp: in_set_conv_nth case_prod_beta)
  have c: "fst (scores report ! i) = score_cols report ! i"
    using i by (simp add: score_cols_def)
  have "col_min (map abs (snd (scores report ! i)))
          = Min (abs ` set (df_column report (score_cols report ! i)))"
    unfolding scores_nth [OF d i] col_min_def by (simp add: image_image)
  then show ?thesis unfolding pi c by (simp add: min_abs_score_def)
qed

lemma best_smoother_cols_ranked:
  assumes d: "distinct (columns report)" and n: "3 \<le> length (score_cols report)"
  shows "length (best_smoother_cols report) = 3"
    and "set (best_smoother_cols report) \<subseteq> set (score_cols report)"
    and "distinct (best_smoother_cols report)"
    and "min_abs_score report (best_smoother_cols report ! 0)
           \<le> min_abs_score report (best_smoother_cols report ! 1)"
    and "min_abs_score report (best_smoother_cols report ! 1)
           \<le> min_abs_score report (best_smoother_cols report ! 2)"
    and "\<forall>c \<in> set (score_cols report).
           min_abs_score report (best_smoother_cols report ! 0) \<le> min_abs_score report c"
    and "\<forall>c \<in> set (score_cols report) - set (best_smoother_cols report).
           min_abs_score report (best_smoother_cols report ! 2) \<le> min_abs_score report c"
proof -
  let ?M = "map (\<lambda>(c, xs). (c, col_min (map abs xs))) (scores report)"
  let ?S = "sort_key snd ?M"
  let ?B = "best_smoother_cols report"
  have fstM: "map fst ?M = score_cols report" by (rule score_minima_fst)
  have lenS: "length ?S = length (score_cols report)"
    using arg_cong [OF fstM, of length] by simp
  have msetS: "mset (map fst ?S) = mset (score_cols report)"
  proof -
    have "mset (map fst ?S) = image_mset fst (mset ?S)" by (simp only: mset_map)
    also have "\<dots> = image_mset fst (mset ?M)" by (simp only: mset_sort)
    also have "\<dots> = mset (map fst ?M)" by (simp only: mset_map)
    finally show ?thesis unfolding fstM .
  qed
  have dS: "distinct (map fst ?S)"
    using mset_eq_imp_distinct_iff [OF msetS] distinct_score_cols [OF d] by simp
  have setS: "set (map fst ?S) = set (score_cols report)"
    using mset_eq_setD [OF msetS] .
  have "distinct (map fst (take 3 ?S))"
    using dS by (simp add: take_map [symmetric])
  then have B: "?B = map fst (take 3 ?S)"
    unfolding best_smoother_cols_def sort_values_def by (rule dict_keys_distinct)
  show lenB: "length ?B = 3" unfolding B using lenS n by simp
  show "set ?B \<subseteq> set (score_cols report)"
    unfolding B using setS by (auto simp: take_map [symmetric] dest: in_set_takeD)
  show "distinct ?B" unfolding B using dS by (simp add: take_map [symmetric])
  have nthB: "\<And>k. k < 3 \<Longrightarrow> ?B ! k = fst (?S ! k)"
    unfolding B using lenS n by simp
  have val: "\<And>k. k < length ?S \<Longrightarrow> snd (?S ! k) = min_abs_score report (fst (?S ! k))"
  proof -
    fix k assume "k < length ?S"
    then have "?S ! k \<in> set ?S" by (rule nth_mem)
    then have "?S ! k \<in> set ?M" by (simp only: set_sort)
    then show "snd (?S ! k) = min_abs_score report (fst (?S ! k))"
      by (rule score_minima_snd [OF d])
  qed
  have srt: "sorted (map snd ?S)" by (rule sorted_sort_key)
  have mono: "\<And>a b. a \<le> b \<Longrightarrow> b < length ?S \<Longrightarrow> snd (?S ! a) \<le> snd (?S ! b)"
  proof -
    fix a b assume ab: "a \<le> b" "b < length ?S"
    then have "map snd ?S ! a \<le> map snd ?S ! b"
      using srt by (intro sorted_nth_mono) simp_all
    then show "snd (?S ! a) \<le> snd (?S ! b)" using ab by simp
  qed
  have m: "\<And>a b. a \<le> b \<Longrightarrow> b < length ?S \<Longrightarrow>
             min_abs_score report (fst (?S ! a)) \<le> min_abs_score report (fst (?S ! b))"
    using mono val by simp
  show "min_abs_score report (?B ! 0) \<le> min_abs_score report (?B ! 1)"
    using m [of 0 1] nthB [of 0] nthB [of 1] lenS n by simp
  show "min_abs_score report (?B ! 1) \<le> min_abs_score report (?B ! 2)"
    using m [of 1 2] nthB [of 1] nthB [of 2] lenS n by simp
  show "\<forall>c \<in> set (score_cols report).
           min_abs_score report (?B ! 0) \<le> min_abs_score report c"
  proof
    fix c assume "c \<in> set (score_cols report)"
    then have "c \<in> set (map fst ?S)" unfolding setS by simp
    then obtain b where "b < length (map fst ?S)" "map fst ?S ! b = c"
      unfolding in_set_conv_nth by blast
    then have b: "b < length ?S" "fst (?S ! b) = c" by simp_all
    then show "min_abs_score report (?B ! 0) \<le> min_abs_score report c"
      using m [of 0 b] nthB [of 0] by simp
  qed
  show "\<forall>c \<in> set (score_cols report) - set ?B.
           min_abs_score report (?B ! 2) \<le> min_abs_score report c"
  proof
    fix c assume c: "c \<in> set (score_cols report) - set ?B"
    then have "c \<in> set (map fst ?S)" unfolding setS by simp
    then obtain b where "b < length (map fst ?S)" "map fst ?S ! b = c"
      unfolding in_set_conv_nth by blast
    then have b: "b < length ?S" "fst (?S ! b) = c" by simp_all
    have "\<not> b < 3"
    proof
      assume "b < 3"
      then have "?B ! b = c" "b < length ?B" using nthB [of b] b(2) lenB by simp_all
      then have "c \<in> set ?B" using nth_mem by blast
      with c show False by simp
    qed
    then have "2 \<le> b" by simp
    then show "min_abs_score report (?B ! 2) \<le> min_abs_score report c"
      using m [of 2 b] nthB [of 2] b by simp
  qed
qed

lemma df_row_of_entry:
  assumes "df_row_of report (best_smoother_labels col) r = Inr entry"
  shows "length entry = 6" and "fst (entry ! 5) = col"
    and "snd (entry ! 5) = df_column report col ! r" and "r < length (data report)"
proof -
  from assms have r: "r < length (data report)"
    and e: "entry = map (\<lambda>c. (c, data report ! r ! col_index (columns report) c))
                      (best_smoother_labels col)"
    by (auto simp: df_row_of_def split: if_splits)
  show "length entry = 6" unfolding e by (simp add: best_smoother_labels_def)
  show "fst (entry ! 5) = col" unfolding e by (simp add: best_smoother_labels_def)
  show "snd (entry ! 5) = df_column report col ! r"
    unfolding e using r by (simp add: best_smoother_labels_def df_column_def)
  show "r < length (data report)" by (rule r)
qed

lemma best_entry_attains:
  assumes "df_row_of report (best_smoother_labels col)
             (idxmin (map abs (df_column report col))) = Inr entry"
  shows "\<bar>snd (entry ! 5)\<bar> = min_abs_score report col"
proof -
  let ?xs = "map abs (df_column report col)"
  note e = df_row_of_entry [OF assms]
  have ne: "?xs \<noteq> []" using e(4) by (auto simp: df_column_def)
  from idxmin_attains [OF ne] have "?xs ! idxmin ?xs = Min (set ?xs)"
    and "idxmin ?xs < length ?xs" by simp_all
  then have "\<bar>df_column report col ! idxmin ?xs\<bar> = Min (abs ` set (df_column report col))"
    by simp
  then show ?thesis using e(3) by (simp add: min_abs_score_def)
qed

text \<open>
  Claim C5. On a report table with at least three score columns, the entries \<open>best\<close>,
  \<open>second\<close> and \<open>third\<close> of \<open>best_smoothers\<close> belong to three different score columns.
  The column of \<open>best\<close> has the least row-wise minimum of absolute scores among all score
  columns, the minimum of \<open>second\<close> is at least that of \<open>best\<close> and at most that of
  \<open>third\<close>, and every other column has a minimum at least that of \<open>third\<close>. The score of
  each entry is one that attains the minimum of its column.
\<close>

theorem best_smoothers_ranked:
  assumes run: "summarize_trim_unfoldings report unfolds = Inr (best_smoothers, best_unfoldeds, cons)"
    and d: "distinct (columns report)" and n: "3 \<le> length (score_cols report)"
  shows "\<exists>e0 e1 e2.
           best_smoothers (StrKey ''best'') = Some e0
         \<and> best_smoothers (StrKey ''second'') = Some e1
         \<and> best_smoothers (StrKey ''third'') = Some e2
         \<and> best_smoothers (IntKey 0) = Some e0 \<and> best_smoothers (IntKey 1) = Some e1
         \<and> best_smoothers (IntKey 2) = Some e2
         \<and> length e0 = 6 \<and> length e1 = 6 \<and> length e2 = 6
         \<and> {fst (e0 ! 5), fst (e1 ! 5), fst (e2 ! 5)} \<subseteq> set (score_cols report)
         \<and> distinct [fst (e0 ! 5), fst (e1 ! 5), fst (e2 ! 5)]
         \<and> \<bar>snd (e0 ! 5)\<bar> = min_abs_score report (fst (e0 ! 5))
         \<and> \<bar>snd (e1 ! 5)\<bar> = min_abs_score report (fst (e1 ! 5))
         \<and> \<bar>snd (e2 ! 5)\<bar> = min_abs_score report (fst (e2 ! 5))
         \<and> (\<forall>c \<in> set (score_cols report).
               min_abs_score report (fst (e0 ! 5)) \<le> min_abs_score report c)
         \<and> min_abs_score report (fst (e0 ! 5)) \<le> min_abs_score report (fst (e1 ! 5))
         \<and> min_abs_score report (fst (e1 ! 5)) \<le> min_abs_score report (fst (e2 ! 5))
         \<and> (\<forall>c \<in> set (score_cols report) - {fst (e0 ! 5), fst (e1 ! 5), fst (e2 ! 5)}.
               min_abs_score report (fst (e2 ! 5)) \<le> min_abs_score report c)"
proof -
  let ?B = "best_smoother_cols report" and ?R = "best_smoother_rows report"
  note rk = best_smoother_cols_ranked [OF d n]
  have lenB: "length ?B = 3" by (rule rk(1))
  have lenR: "length ?R = 3" using lenB by (simp add: best_smoother_rows_def)
  have fill: "fill_best_smoothers report 0 (zip ?B ?R) Map.empty = Inr best_smoothers"
    using run by (auto simp: summarize_trim_unfoldings_def split: if_splits sum.splits)
  have pr: "\<And>k. k < 3 \<Longrightarrow> zip ?B ?R ! k = (?B ! k, idxmin (map abs (df_column report (?B ! k))))"
    using lenB lenR by (simp add: best_smoother_rows_def)
  have lz: "length (zip ?B ?R) = 3" using lenB lenR by simp
  have ex: "\<And>k. k < 3 \<Longrightarrow> \<exists>entry.
      df_row_of report (best_smoother_labels (?B ! k))
        (idxmin (map abs (df_column report (?B ! k)))) = Inr entry
      \<and> best_smoothers (IntKey k) = Some entry
      \<and> (k = 0 \<longrightarrow> best_smoothers (StrKey ''best'') = Some entry)
      \<and> (k = 1 \<longrightarrow> best_smoothers (StrKey ''second'') = Some entry)
      \<and> (k = 2 \<longrightarrow> best_smoothers (StrKey ''third'') = Some entry)"
  proof -
    fix k :: nat assume k: "k < 3"
    then have "k < length (zip ?B ?R)" using lz by simp
    from fill_best_smoothers_lookup [OF fill this] show "\<exists>entry.
      df_row_of report (best_smoother_labels (?B ! k))
        (idxmin (map abs (df_column report (?B ! k)))) = Inr entry
      \<and> best_smoothers (IntKey k) = Some entry
      \<and> (k = 0 \<longrightarrow> best_smoothers (StrKey ''best'') = Some entry)
      \<and> (k = 1 \<longrightarrow> best_smoothers (StrKey ''second'') = Some entry)
      \<and> (k = 2 \<longrightarrow> best_smoothers (StrKey ''third'') = Some entry)"
      using pr [OF k] by simp
  qed
  from ex [of 0] obtain e0 where e0:
    "df_row_of report (best_smoother_labels (?B ! 0))
        (idxmin (map abs (df_column report (?B ! 0)))) = Inr e0"
    "best_smoothers (IntKey 0) = Some e0" "best_smoothers (StrKey ''best'') = Some e0"
    by auto
  from ex [of 1] obtain e1 where e1:
    "df_row_of report (best_smoother_labels (?B ! 1))
        (idxmin (map abs (df_column report (?B ! 1)))) = Inr e1"
    "best_smoothers (IntKey 1) = Some e1" "best_smoothers (StrKey ''second'') = Some e1"
    by auto
  from ex [of 2] obtain e2 where e2:
    "df_row_of report (best_smoother_labels (?B ! 2))
        (idxmin (map abs (df_column report (?B ! 2)))) = Inr e2"
    "best_smoothers (IntKey 2) = Some e2" "best_smoothers (StrKey ''third'') = Some e2"
    by auto
  note f0 = df_row_of_entry [OF e0(1)] and f1 = df_row_of_entry [OF e1(1)]
    and f2 = df_row_of_entry [OF e2(1)]
  have B3: "?B = [?B ! 0, ?B ! 1, ?B ! 2]"
    using lenB by (intro nth_equalityI) (auto simp: nth_Cons' numeral_eq_Suc less_Suc_eq)
  note c = f0(2) [symmetric] f1(2) [symmetric] f2(2) [symmetric]
  have setB: "set ?B = {fst (e0 ! 5), fst (e1 ! 5), fst (e2 ! 5)}"
  proof -
    have "set ?B = set [?B ! 0, ?B ! 1, ?B ! 2]" using B3 by simp
    then show ?thesis unfolding c by simp
  qed
  have sub: "{fst (e0 ! 5), fst (e1 ! 5), fst (e2 ! 5)} \<subseteq> set (score_cols report)"
    using rk(2) unfolding setB .
  have dist: "distinct [fst (e0 ! 5), fst (e1 ! 5), fst (e2 ! 5)]"
  proof -
    have "distinct [?B ! 0, ?B ! 1, ?B ! 2]" using rk(3) B3 by simp
    then show ?thesis unfolding c .
  qed
  have a0: "\<bar>snd (e0 ! 5)\<bar> = min_abs_score report (fst (e0 ! 5))"
    unfolding f0(2) by (rule best_entry_attains [OF e0(1)])
  have a1: "\<bar>snd (e1 ! 5)\<bar> = min_abs_score report (fst (e1 ! 5))"
    unfolding f1(2) by (rule best_entry_attains [OF e1(1)])
  have a2: "\<bar>snd (e2 ! 5)\<bar> = min_abs_score report (fst (e2 ! 5))"
    unfolding f2(2) by (rule best_entry_attains [OF e2(1)])
  have r4: "min_abs_score report (fst (e0 ! 5)) \<le> min_abs_score report (fst (e1 ! 5))"
    using rk(4) unfolding c .
  have r5: "min_abs_score report (fst (e1 ! 5)) \<le> min_abs_score report (fst (e2 ! 5))"
    using rk(5) unfolding c .
  have r6: "\<forall>c \<in> set (score_cols report).
               min_abs_score report (fst (e0 ! 5)) \<le> min_abs_score report c"
    using rk(6) unfolding c .
  have r7: "\<forall>c \<in> set (score_cols report) - {fst (e0 ! 5), fst (e1 ! 5), fst (e2 ! 5)}.
               min_abs_score report (fst (e2 ! 5)) \<le> min_abs_score report c"
    using rk(7) unfolding setB c .
  show ?thesis
    apply (rule exI [of _ e0], rule exI [of _ e1], rule exI [of _ e2])
    apply (insert e0(2,3) e1(2,3) e2(2,3) f0(1) f1(1) f2(1) sub dist a0 a1 a2 r4 r5 r6 r7)
    apply (intro conjI)
    apply assumption+
    done
qed

lemma summarize_parts:
  assumes "summarize_trim_unfoldings report unfolds = Inr (best, bu, cons)"
  shows "fill_best_smoothers report 0
           (zip (best_smoother_cols report) (best_smoother_rows report)) Map.empty = Inr best"
    and "select_columns unfolds (map (str_replace ''--score'' []) (best_smoother_cols report))
           = Inr bu"
  using assms by (auto simp: summarize_trim_unfoldings_def split: if_splits sum.splits)

lemma demo_best:
  "projr (fill_best_smoothers demo_table 0
            (zip (best_smoother_cols demo_table) (best_smoother_rows demo_table)) Map.empty)
     (StrKey ''best'')
   = Some [(''trim_percent'', 0), (''trim_low'', 0), (''trim_high'', 0),
           (''c--mean_spacing'', 1), (''c--var_spacing'', 1), (''c--score'', - 5)]"
  by code_simp

lemma demo_score_cols:
  "score_cols demo_table = [''a--score'', ''b--score'', ''c--score'', ''d--score'']"
  by code_simp

theorem best_smoothers_ranked_witness:
  "\<exists>best bu cons e0.
      summarize_trim_unfoldings demo_table demo_unfolds = Inr (best, bu, cons)
    \<and> distinct (columns demo_table) \<and> 3 \<le> length (score_cols demo_table)
    \<and> best (StrKey ''best'') = Some e0 \<and> e0 ! 5 = (''c--score'', - 5)
    \<and> \<bar>- 5 :: real\<bar> = min_abs_score demo_table ''c--score''
    \<and> min_abs_score demo_table ''c--score'' \<le> min_abs_score demo_table ''d--score''"
proof -
  obtain best bu cons where
    run: "summarize_trim_unfoldings demo_table demo_unfolds = Inr (best, bu, cons)"
    using demo_summary_returns by blast
  have n: "3 \<le> length (score_cols demo_table)" by (simp add: demo_score_cols)
  from best_smoothers_ranked [OF run demo_table_distinct n] obtain e0 where
    b: "best (StrKey ''best'') = Some e0"
    and a: "\<bar>snd (e0 ! 5)\<bar> = min_abs_score demo_table (fst (e0 ! 5))"
    and m: "\<forall>c \<in> set (score_cols demo_table).
               min_abs_score demo_table (fst (e0 ! 5)) \<le> min_abs_score demo_table c"
    by blast
  have "best (StrKey ''best'')
          = Some [(''trim_percent'', 0), (''trim_low'', 0), (''trim_high'', 0),
                  (''c--mean_spacing'', 1), (''c--var_spacing'', 1), (''c--score'', - 5)]"
    using summarize_parts(1) [OF run] demo_best by simp
  with b have e: "e0 ! 5 = (''c--score'', - 5)" by auto
  have "''d--score'' \<in> set (score_cols demo_table)" by (simp add: demo_score_cols)
  with m have "min_abs_score demo_table (fst (e0 ! 5)) \<le> min_abs_score demo_table ''d--score''"
    by blast
  with run demo_table_distinct n b e a show ?thesis
    apply (intro exI [of _ best] exI [of _ bu] exI [of _ cons] exI [of _ e0])
    apply simp
    done
qed

subsection \<open>When the selection returns\<close>

text \<open>
  \<open>summarize_trim_unfoldings\<close> returns on a table with at least one row whose score
  columns come with their \<open>mean_spacing\<close> and \<open>var_spacing\<close> columns and with an
  unfolding of the same name.
\<close>

lemma fill_best_smoothers_returns:
  assumes "\<forall>p \<in> set pairs. set (best_smoother_labels (fst p)) \<subseteq> set (columns report)
             \<and> snd p < length (data report)"
  shows "\<exists>d'. fill_best_smoothers report i pairs d = Inr d'"
  using assms
proof (induction pairs arbitrary: i d)
  case Nil
  then show ?case by simp
next
  case (Cons p pairs)
  obtain col r where p: "p = (col, r)" by (cases p)
  have "\<exists>entry. df_row_of report (best_smoother_labels col) r = Inr entry"
    using Cons.prems p by (simp add: df_row_of_def)
  then obtain entry where
    e: "df_row_of report ([''trim_percent'', ''trim_low'', ''trim_high'']
          @ [str_replace ''score'' ''mean_spacing'' col,
             str_replace ''score'' ''var_spacing'' col, col]) r = Inr entry"
    by (auto simp: best_smoother_labels_def)
  have "\<forall>p \<in> set pairs. set (best_smoother_labels (fst p)) \<subseteq> set (columns report)
             \<and> snd p < length (data report)"
    using Cons.prems by simp
  from Cons.IH [OF this] show ?case
    unfolding p fill_best_smoothers.simps Let_def e sum.case by blast
qed

lemma summarize_trim_unfoldings_returns:
  assumes rows: "data report \<noteq> []" and d: "distinct (columns report)"
    and labels: "\<forall>c \<in> set (score_cols report).
                   set (best_smoother_labels c) \<subseteq> set (columns report)
                   \<and> str_replace ''--score'' [] c \<in> fst ` set unfolds"
  shows "\<exists>best bu. summarize_trim_unfoldings report unfolds = Inr (best, bu, consistent report)"
proof -
  let ?B = "best_smoother_cols report" and ?R = "best_smoother_rows report"
  let ?M = "map (\<lambda>(c, xs). (c, col_min (map abs xs))) (scores report)"
  have fstM: "map fst ?M = score_cols report" by (rule score_minima_fst)
  have "set (dict_keys (take 3 (sort_key snd ?M))) = fst ` set (take 3 (sort_key snd ?M))"
    by (simp add: dict_keys_def)
  also have "\<dots> \<subseteq> fst ` set (sort_key snd ?M)"
    by (intro image_mono set_take_subset)
  also have "\<dots> = set (map fst ?M)" by (simp only: set_sort set_map)
  finally have sub: "set ?B \<subseteq> set (score_cols report)"
    unfolding fstM by (simp add: best_smoother_cols_def sort_values_def)
  have "set (map (str_replace ''--score'' []) ?B) \<subseteq> fst ` set unfolds"
    using sub labels by auto
  then obtain bu where sel: "select_columns unfolds (map (str_replace ''--score'' []) ?B) = Inr bu"
    by (simp add: select_columns_def)
  have "\<forall>p \<in> set (zip ?B ?R). set (best_smoother_labels (fst p)) \<subseteq> set (columns report)
             \<and> snd p < length (data report)"
  proof
    fix p assume "p \<in> set (zip ?B ?R)"
    then obtain k where k: "k < length ?B" and p: "p = (?B ! k, ?R ! k)"
      by (auto simp: in_set_conv_nth best_smoother_rows_def)
    have c: "?B ! k \<in> set (score_cols report)" using k sub by auto
    have ne: "map abs (df_column report (?B ! k)) \<noteq> []"
      using rows by (simp add: df_column_def)
    have "?R ! k = idxmin (map abs (df_column report (?B ! k)))"
      using k by (simp add: best_smoother_rows_def)
    then have "?R ! k < length (data report)"
      using idxmin_attains [OF ne] by (simp add: df_column_def)
    then show "set (best_smoother_labels (fst p)) \<subseteq> set (columns report)
             \<and> snd p < length (data report)"
      using labels c p by simp
  qed
  from fill_best_smoothers_returns [OF this] obtain best where
    "fill_best_smoothers report 0 (zip ?B ?R) Map.empty = Inr best" by blast
  from summarize_returns [OF rows sel this] show ?thesis by blast
qed

end
